theory Spec2Isabelle
  imports Main
begin

section \<open>Failures\<close>

text \<open>
  The sources signal failure in three ways: a failed \<^verbatim>\<open>assert\<close> (the
  \<^verbatim>\<open>assert_*\<close> macros, and the bounds assertion of \<^verbatim>\<open>EList::operator[]\<close>),
  \<^verbatim>\<open>throw 1\<close> after a diagnostic on \<^verbatim>\<open>cerr\<close>, and \<^verbatim>\<open>exit(1)\<close> after a
  diagnostic. Each is a value here; the diagnostic text is kept. In outq.cpp the
  assertions guard every index into the window, and they are modelled as checked (a build
  without \<^verbatim>\<open>NDEBUG\<close>).
\<close>

datatype error =
    AssertionFailed
  | Thrown string
  | Exited string
  | DivideByZero

section \<open>The output queue (outq.cpp)\<close>

subsection \<open>Output streams\<close>

text \<open>
  An output stream (\<^verbatim>\<open>FILE*\<close>) is the bytes written to it so far and the room that is
  left on the device: \<open>None\<close> when it never runs out. \<^verbatim>\<open>fwrite\<close> writes as many bytes
  as fit and returns their number.
\<close>

record ostream =
  contents :: string
  room :: "nat option"

definition fwrite :: "string \<Rightarrow> ostream \<Rightarrow> nat \<times> ostream" where
  "fwrite s f =
     (let n = (case room f of None \<Rightarrow> length s | Some r \<Rightarrow> min r (length s))
      in (n, f\<lparr>contents := contents f @ take n s,
               room := map_option (\<lambda>r. r - n) (room f)\<rparr>))"

subsection \<open>State\<close>

text \<open>
  The fields of \<^verbatim>\<open>OutputQueue\<close> that outq.cpp reads and writes, under the names of the
  source without the trailing underscore. \<open>cur\<close> is the id of the oldest record not
  yet flushed; \<open>lines\<close>, \<open>started\<close> and \<open>finished\<close> are the window, slot \<open>i\<close>
  standing for record \<open>cur + i\<close>. Record ids and sizes are 64-bit unsigned in the
  source and natural numbers here: the only subtraction, \<^verbatim>\<open>rdid - cur_\<close>, comes after
  \<^verbatim>\<open>assert_geq(rdid, cur_)\<close>. The mutexes are left out: each operation below is what
  runs inside the critical section.
\<close>

record OutputQueue =
  ofhs :: "ostream list"
  nmulti_output :: nat
  cur :: nat
  nthreads :: nat
  lines :: "string list"
  started :: "bool list"
  finished :: "bool list"
  reorder :: bool
  threadSafe :: bool
  perThreadBufSize :: int
  perThreadBuf :: "string list list"
  perThreadCounter :: "int list"
  perThreadStarted :: "nat list"
  perThreadFinished :: "nat list"
  perThreadFlushed :: "nat list"

text \<open>\<^verbatim>\<open>EList::resize\<close> on a longer size appends slots, and the loop of
  \<^verbatim>\<open>beginReadImpl\<close> then clears their flags. What a new slot of \<^verbatim>\<open>lines_\<close> holds is left
  over from earlier use of the array; it is taken to be empty here, and it is not read
  before \<^verbatim>\<open>finishReadImpl\<close> has stored a text in the slot.\<close>

definition resize :: "nat \<Rightarrow> 'a \<Rightarrow> 'a list \<Rightarrow> 'a list" where
  "resize n fill xs = (if n \<le> length xs then take n xs else xs @ replicate (n - length xs) fill)"

function clear_new_slots :: "nat \<Rightarrow> OutputQueue \<Rightarrow> OutputQueue" where
  "clear_new_slots i q =
     (if i < length (lines q)
      then clear_new_slots (i + 1)
             (q\<lparr>finished := (finished q)[i := False], started := (started q)[i := False]\<rparr>)
      else q)"
  by pat_completeness auto
termination
  by (relation "measure (\<lambda>(i, q). length (lines q) - i)") auto

declare clear_new_slots.simps [simp del]

subsection \<open>writeString\<close>

definition writeString :: "string \<Rightarrow> nat \<Rightarrow> OutputQueue \<Rightarrow> error + OutputQueue" where
  "writeString s outidx q =
     (if \<not> outidx < length (ofhs q) then Inl AssertionFailed
      else
        let (nwritten, f) = fwrite s (ofhs q ! outidx)
        in if nwritten \<noteq> length s then Inl (Thrown ''fwrite'')
           else Inr (q\<lparr>ofhs := (ofhs q)[outidx := f]\<rparr>))"

subsection \<open>beginRead\<close>

definition beginReadImpl :: "nat \<Rightarrow> nat \<Rightarrow> OutputQueue \<Rightarrow> error + OutputQueue" where
  "beginReadImpl rdid threadId q =
     (if \<not> threadId < nthreads q then Inl AssertionFailed
      else if \<not> perThreadCounter q ! threadId \<le> perThreadBufSize q then Inl AssertionFailed
      else
        let q1 = q\<lparr>perThreadStarted :=
                     (perThreadStarted q)[threadId := perThreadStarted q ! threadId + 1]\<rparr>
        in if reorder q1 then
             (if \<not> rdid \<ge> cur q1 then Inl AssertionFailed
              else if length (lines q1) \<noteq> length (finished q1) then Inl AssertionFailed
              else if length (lines q1) \<noteq> length (started q1) then Inl AssertionFailed
              else
                let q2 = (if rdid - cur q1 \<ge> length (lines q1)
                          then
                            let oldsz = length (lines q1)
                            in clear_new_slots oldsz
                                 (q1\<lparr>lines := resize (rdid - cur q1 + 1) [] (lines q1),
                                     started := resize (rdid - cur q1 + 1) False (started q1),
                                     finished := resize (rdid - cur q1 + 1) False (finished q1)\<rparr>)
                          else q1)
                in Inr (q2\<lparr>started := (started q2)[rdid - cur q2 := True],
                           finished := (finished q2)[rdid - cur q2 := False]\<rparr>))
           else Inr q1)"

definition beginRead :: "nat \<Rightarrow> nat \<Rightarrow> OutputQueue \<Rightarrow> error + OutputQueue" where
  "beginRead rdid threadId q =
     (if reorder q \<and> threadSafe q then beginReadImpl rdid threadId q
      else beginReadImpl rdid threadId q)"

subsection \<open>flush\<close>

text \<open>The first loop of \<^verbatim>\<open>flushImpl\<close>: count the finished slots at the head.\<close>

function count_finished :: "nat \<Rightarrow> OutputQueue \<Rightarrow> error + nat" where
  "count_finished nflush q =
     (if nflush < length (finished q) \<and> finished q ! nflush
      then (if \<not> (nflush < length (started q) \<and> started q ! nflush) then Inl AssertionFailed
            else count_finished (nflush + 1) q)
      else Inr nflush)"
  by pat_completeness auto
termination
  by (relation "measure (\<lambda>(n, q). length (finished q) - n)") auto

declare count_finished.simps [simp del]

text \<open>The second loop: write the first \<open>nflush\<close> lines to stream 0.\<close>

function write_finished :: "nat \<Rightarrow> nat \<Rightarrow> OutputQueue \<Rightarrow> error + OutputQueue" where
  "write_finished i nflush q =
     (if i < nflush
      then (if \<not> (i < length (started q) \<and> started q ! i) then Inl AssertionFailed
            else if \<not> (i < length (finished q) \<and> finished q ! i) then Inl AssertionFailed
            else if \<not> i < length (lines q) then Inl AssertionFailed
            else case writeString (lines q ! i) 0 q of
                   Inl e \<Rightarrow> Inl e
                 | Inr q' \<Rightarrow> write_finished (i + 1) nflush q')
      else Inr q)"
  by pat_completeness auto
termination
  by (relation "measure (\<lambda>(i, n, q). n - i)") auto

declare write_finished.simps [simp del]

text \<open>Without reordering: every thread's private buffer goes to stream 0.\<close>

function write_buf :: "nat \<Rightarrow> nat \<Rightarrow> nat \<Rightarrow> nat \<Rightarrow> OutputQueue \<Rightarrow> error + OutputQueue" where
  "write_buf threadId j n outidx q =
     (if j < n
      then case writeString (perThreadBuf q ! threadId ! j) outidx q of
             Inl e \<Rightarrow> Inl e
           | Inr q' \<Rightarrow> write_buf threadId (j + 1) n outidx q'
      else Inr q)"
  by pat_completeness auto
termination
  by (relation "measure (\<lambda>(t, j, n, outidx, q). n - j)") auto

declare write_buf.simps [simp del]

text \<open>The bound \<open>n\<close> is \<^verbatim>\<open>nthreads_\<close>, which the loop body does not write.\<close>

function flush_threads :: "nat \<Rightarrow> nat \<Rightarrow> OutputQueue \<Rightarrow> error + OutputQueue" where
  "flush_threads i n q =
     (if i < n
      then case write_buf i 0 (nat (perThreadCounter q ! i)) 0 q of
             Inl e \<Rightarrow> Inl e
           | Inr q' \<Rightarrow>
               flush_threads (i + 1) n
                 (q'\<lparr>perThreadFlushed :=
                       (perThreadFlushed q')[i := perThreadFlushed q' ! i + nat (perThreadCounter q' ! i)],
                     perThreadCounter := (perThreadCounter q')[i := 0]\<rparr>)
      else Inr q)"
  by pat_completeness auto
termination
  by (relation "measure (\<lambda>(i, n, q). n - i)") auto

declare flush_threads.simps [simp del]

definition flushImpl :: "nat \<Rightarrow> bool \<Rightarrow> OutputQueue \<Rightarrow> error + OutputQueue" where
  "flushImpl NFLUSH_THRESH force q =
     (if \<not> reorder q then flush_threads 0 (nthreads q) q
      else
        case count_finished 0 q of
          Inl e \<Rightarrow> Inl e
        | Inr nflush \<Rightarrow>
            if force \<or> nflush \<ge> NFLUSH_THRESH then
              (case write_finished 0 nflush q of
                 Inl e \<Rightarrow> Inl e
               | Inr q1 \<Rightarrow>
                   Inr (q1\<lparr>lines := drop nflush (lines q1),
                           started := drop nflush (started q1),
                           finished := drop nflush (finished q1),
                           cur := cur q1 + nflush,
                           perThreadFlushed :=
                             (perThreadFlushed q1)[0 := perThreadFlushed q1 ! 0 + nflush]\<rparr>))
            else Inr q)"

definition flush :: "nat \<Rightarrow> bool \<Rightarrow> bool \<Rightarrow> OutputQueue \<Rightarrow> error + OutputQueue" where
  "flush NFLUSH_THRESH force getLock q =
     (if getLock \<and> threadSafe q then flushImpl NFLUSH_THRESH force q
      else flushImpl NFLUSH_THRESH force q)"

subsection \<open>finishRead\<close>

definition finishReadImpl ::
  "nat \<Rightarrow> string \<Rightarrow> nat \<Rightarrow> nat \<Rightarrow> OutputQueue \<Rightarrow> error + OutputQueue" where
  "finishReadImpl NFLUSH_THRESH rec rdid threadId q =
     (if \<not> threadId < nthreads q then Inl AssertionFailed
      else if reorder q then
        (if \<not> rdid \<ge> cur q then Inl AssertionFailed
         else if length (lines q) \<noteq> length (finished q) then Inl AssertionFailed
         else if length (lines q) \<noteq> length (started q) then Inl AssertionFailed
         else if \<not> rdid - cur q < length (lines q) then Inl AssertionFailed
         else if \<not> started q ! (rdid - cur q) then Inl AssertionFailed
         else if finished q ! (rdid - cur q) then Inl AssertionFailed
         else
           flush NFLUSH_THRESH False False
             (q\<lparr>lines := (lines q)[rdid - cur q := rec],
                perThreadFinished :=
                  (perThreadFinished q)[threadId := perThreadFinished q ! threadId + 1],
                finished := (finished q)[rdid - cur q := True]\<rparr>))
      else
        let q1 = q\<lparr>perThreadFinished :=
                     (perThreadFinished q)[threadId := perThreadFinished q ! threadId + 1]\<rparr>
        in case
             (if perThreadCounter q1 ! threadId \<ge> perThreadBufSize q1 then
                (if perThreadCounter q1 ! threadId \<noteq> perThreadBufSize q1 then Inl AssertionFailed
                 else if nmulti_output q1 = 0 then Inl DivideByZero
                 else
                   let outidx = threadId mod nmulti_output q1
                   in case write_buf threadId 0 (nat (perThreadBufSize q1)) outidx q1 of
                        Inl e \<Rightarrow> Inl e
                      | Inr q2 \<Rightarrow>
                          Inr (q2\<lparr>perThreadFlushed :=
                                    (perThreadFlushed q2)
                                      [threadId := perThreadFlushed q2 ! threadId
                                                   + nat (perThreadBufSize q2)],
                                  perThreadCounter := (perThreadCounter q2)[threadId := 0]\<rparr>))
              else Inr q1) of
             Inl e \<Rightarrow> Inl e
           | Inr q3 \<Rightarrow>
               Inr (q3\<lparr>perThreadBuf :=
                         (perThreadBuf q3)
                           [threadId := (perThreadBuf q3 ! threadId)
                                          [nat (perThreadCounter q3 ! threadId) := rec]],
                       perThreadCounter :=
                         (perThreadCounter q3)[threadId := perThreadCounter q3 ! threadId + 1]\<rparr>))"

definition finishRead ::
  "nat \<Rightarrow> string \<Rightarrow> nat \<Rightarrow> nat \<Rightarrow> OutputQueue \<Rightarrow> error + OutputQueue" where
  "finishRead NFLUSH_THRESH rec rdid threadId q =
     (if \<not> threadId < nthreads q then Inl AssertionFailed
      else if threadSafe q \<and> reorder q then finishReadImpl NFLUSH_THRESH rec rdid threadId q
      else finishReadImpl NFLUSH_THRESH rec rdid threadId q)"

subsection \<open>Sequences of calls\<close>

text \<open>
  The public operations, as a caller issues them; \<open>run\<close> applies a sequence of calls and
  stops at the first failure. \<open>Flush force\<close> is \<^verbatim>\<open>flush(force, true)\<close>.
\<close>

datatype op = BeginRead nat nat | FinishRead string nat nat | Flush bool

fun step :: "nat \<Rightarrow> op \<Rightarrow> OutputQueue \<Rightarrow> error + OutputQueue" where
  "step T (BeginRead rdid threadId) q = beginRead rdid threadId q"
| "step T (FinishRead rec rdid threadId) q = finishRead T rec rdid threadId q"
| "step T (Flush force) q = flush T force True q"

fun run :: "nat \<Rightarrow> op list \<Rightarrow> OutputQueue \<Rightarrow> error + OutputQueue" where
  "run T [] q = Inr q"
| "run T (x # xs) q = (case step T x q of Inl e \<Rightarrow> Inl e | Inr q' \<Rightarrow> run T xs q')"

text \<open>
  What the callers (the worker threads) promise: a record is begun once, by a thread that
  exists, and finished once, after it was begun. \<open>B\<close> and \<open>F\<close> are the ids begun and
  finished before the sequence.
\<close>

fun trace_ok :: "nat \<Rightarrow> nat set \<Rightarrow> nat set \<Rightarrow> op list \<Rightarrow> bool" where
  "trace_ok nt B F [] = True"
| "trace_ok nt B F (BeginRead i t # os) = (t < nt \<and> i \<notin> B \<and> trace_ok nt (insert i B) F os)"
| "trace_ok nt B F (FinishRead r i t # os) =
     (t < nt \<and> i \<in> B \<and> i \<notin> F \<and> trace_ok nt B (insert i F) os)"
| "trace_ok nt B F (Flush force # os) = trace_ok nt B F os"

text \<open>The ids begun and the texts finished once the sequence has run, starting from
  \<open>B\<close> and \<open>F\<close>.\<close>

fun begun :: "nat set \<Rightarrow> op list \<Rightarrow> nat set" where
  "begun B [] = B"
| "begun B (BeginRead i t # os) = begun (insert i B) os"
| "begun B (FinishRead r i t # os) = begun B os"
| "begun B (Flush force # os) = begun B os"

fun texts :: "(nat \<rightharpoonup> string) \<Rightarrow> op list \<Rightarrow> (nat \<rightharpoonup> string)" where
  "texts F [] = F"
| "texts F (BeginRead i t # os) = texts F os"
| "texts F (FinishRead r i t # os) = texts (F(i \<mapsto> r)) os"
| "texts F (Flush force # os) = texts F os"

definition the_text :: "(nat \<rightharpoonup> string) \<Rightarrow> nat \<Rightarrow> string" where
  "the_text F i = (case F i of None \<Rightarrow> [] | Some r \<Rightarrow> r)"

definition text_of :: "op list \<Rightarrow> nat \<Rightarrow> string" where
  "text_of os = the_text (texts Map.empty os)"

fun no_finish :: "nat \<Rightarrow> op list \<Rightarrow> bool" where
  "no_finish i [] = True"
| "no_finish i (FinishRead r j t # os) = (i \<noteq> j \<and> no_finish i os)"
| "no_finish i (x # os) = no_finish i os"


text \<open>
  The queue as its constructor leaves it, in reordering mode: an empty window at id 0, at
  least one output stream, nothing written, every thread's private counter within the
  private buffer size. The stream is one that takes every write.
\<close>

definition fresh :: "OutputQueue \<Rightarrow> bool" where
  "fresh q \<longleftrightarrow>
     reorder q \<and> cur q = 0 \<and> lines q = [] \<and> started q = [] \<and> finished q = [] \<and>
     ofhs q \<noteq> [] \<and> contents (ofhs q ! 0) = [] \<and> room (ofhs q ! 0) = None \<and>
     (\<forall>t < nthreads q. perThreadCounter q ! t \<le> perThreadBufSize q)"

text \<open>The window invariant: three arrays of one length, and no slot finished that was
  not started.\<close>

definition window_ok :: "OutputQueue \<Rightarrow> bool" where
  "window_ok q \<longleftrightarrow>
     length (started q) = length (lines q) \<and> length (finished q) = length (lines q) \<and>
     (\<forall>i < length (finished q). finished q ! i \<longrightarrow> started q ! i)"

text \<open>The number of finished slots at the head of the window, and the queue after its
  first \<open>n\<close> slots were written to stream 0 and dropped.\<close>

definition nready :: "OutputQueue \<Rightarrow> nat" where
  "nready q = length (takeWhile (\<lambda>b. b) (finished q))"

definition emit :: "string \<Rightarrow> OutputQueue \<Rightarrow> OutputQueue" where
  "emit s q = q\<lparr>ofhs := (ofhs q)[0 := (ofhs q ! 0)\<lparr>contents := contents (ofhs q ! 0) @ s\<rparr>]\<rparr>"

definition flushed :: "nat \<Rightarrow> OutputQueue \<Rightarrow> OutputQueue" where
  "flushed n q =
     (emit (concat (take n (lines q))) q)
       \<lparr>lines := drop n (lines q), started := drop n (started q),
        finished := drop n (finished q), cur := cur q + n,
        perThreadFlushed := (perThreadFlushed q)[0 := perThreadFlushed q ! 0 + n]\<rparr>"

text \<open>The queue after a successful \<^verbatim>\<open>beginReadImpl(rdid, threadId)\<close> with reordering.\<close>

definition began :: "nat \<Rightarrow> nat \<Rightarrow> OutputQueue \<Rightarrow> OutputQueue" where
  "began rdid threadId q =
     q\<lparr>perThreadStarted := (perThreadStarted q)[threadId := perThreadStarted q ! threadId + 1],
       lines := lines q @ replicate (rdid - cur q + 1 - length (lines q)) [],
       started := (started q @ replicate (rdid - cur q + 1 - length (lines q)) False)
                    [rdid - cur q := True],
       finished := (finished q @ replicate (rdid - cur q + 1 - length (lines q)) False)
                     [rdid - cur q := False]\<rparr>"

text \<open>
  How the queue follows the calls made so far, \<open>B\<close> the ids begun and \<open>F\<close> the texts
  finished: every id below \<open>cur\<close> is finished and its text is on stream 0, in id order;
  slot \<open>k\<close> of the window carries the flags and the text of id \<open>cur + k\<close>; the window
  ends at the greatest id begun.
\<close>

definition tracks :: "nat \<Rightarrow> nat set \<Rightarrow> (nat \<rightharpoonup> string) \<Rightarrow> OutputQueue \<Rightarrow> bool" where
  "tracks nt B F q \<longleftrightarrow>
     reorder q \<and> window_ok q \<and> nthreads q = nt \<and>
     ofhs q \<noteq> [] \<and> room (ofhs q ! 0) = None \<and>
     (\<forall>t < nt. perThreadCounter q ! t \<le> perThreadBufSize q) \<and>
     dom F \<subseteq> B \<and> (\<forall>i < cur q. i \<in> dom F) \<and>
     (\<forall>i \<in> B. i < cur q + length (lines q)) \<and>
     (\<forall>k < length (lines q).
        (started q ! k \<longleftrightarrow> cur q + k \<in> B) \<and>
        (finished q ! k \<longleftrightarrow> cur q + k \<in> dom F) \<and>
        (finished q ! k \<longrightarrow> F (cur q + k) = Some (lines q ! k))) \<and>
     (lines q \<noteq> [] \<longrightarrow> started q ! (length (lines q) - 1)) \<and>
     contents (ofhs q ! 0) = concat (map (the_text F) [0..<cur q])"

text \<open>Slot \<open>rdid - cur\<close> is in the window, unfinished, and holds \<open>s\<close>.\<close>

definition pending :: "nat \<Rightarrow> string \<Rightarrow> OutputQueue \<Rightarrow> bool" where
  "pending rdid s q \<longleftrightarrow>
     reorder q \<and> cur q \<le> rdid \<and> length (lines q) = length (finished q) \<and>
     rdid - cur q < length (finished q) \<and> \<not> finished q ! (rdid - cur q) \<and>
     lines q ! (rdid - cur q) = s"


subsection \<open>Example queues\<close>

text \<open>A new queue for two threads, and the second test of outq.cpp: five records begun in
  order and finished as 4, 1, 0, 2, 3.\<close>

definition queue0 :: OutputQueue where
  "queue0 =
     \<lparr>ofhs = [\<lparr>contents = [], room = None\<rparr>], nmulti_output = 1, cur = 0, nthreads = 2,
      lines = [], started = [], finished = [], reorder = True, threadSafe = True,
      perThreadBufSize = 1, perThreadBuf = [[[]], [[]]], perThreadCounter = [0, 0],
      perThreadStarted = [0, 0], perThreadFinished = [0, 0], perThreadFlushed = [0, 0]\<rparr>"

definition five_out_of_order :: "op list" where
  "five_out_of_order =
     [BeginRead 0 0, BeginRead 1 1, BeginRead 2 0, BeginRead 3 1, BeginRead 4 0,
      FinishRead ''E\<newline>'' 4 0, FinishRead ''B\<newline>'' 1 1, FinishRead ''A\<newline>'' 0 0,
      FinishRead ''C\<newline>'' 2 0, FinishRead ''D\<newline>'' 3 1]"

text \<open>A queue whose window holds record 0, finished, and record 1, begun only.\<close>

definition queue_one_ready :: OutputQueue where
  "queue_one_ready =
     queue0\<lparr>lines := [''A\<newline>'', []], started := [True, True], finished := [True, False],
            perThreadStarted := [1, 1], perThreadFinished := [1, 0]\<rparr>"

section \<open>Reading the input (pat.cpp)\<close>

text \<open>
  pat.cpp has assertions that compare what two different sources report, so here the build
  is a parameter: \<open>ndebug\<close> is \<open>True\<close> for a build with \<^verbatim>\<open>NDEBUG\<close>, where an
  \<^verbatim>\<open>assert\<close> does nothing.
\<close>

definition assert_fails :: "bool \<Rightarrow> bool \<Rightarrow> bool" where
  "assert_fails ndebug c \<longleftrightarrow> \<not> ndebug \<and> \<not> c"

subsection \<open>Files\<close>

text \<open>
  What \<^verbatim>\<open>fopen(name, "rb")\<close> finds: the bytes of the file, or \<open>None\<close> when it cannot be
  opened; and the bytes waiting on standard input. An open \<^verbatim>\<open>FILE*\<close> is the bytes not yet
  read. \<^verbatim>\<open>getc_unlocked\<close> returns an \<^verbatim>\<open>int\<close>: a byte, or \<^verbatim>\<open>EOF\<close>, which is \<open>None\<close>
  here; at the end of the file it keeps returning \<^verbatim>\<open>EOF\<close>.
\<close>

record filesystem =
  fopen :: "string \<Rightarrow> string option"
  stdin :: string

fun getc_unlocked :: "string \<Rightarrow> char option \<times> string" where
  "getc_unlocked [] = (None, [])"
| "getc_unlocked (x # xs) = (Some x, xs)"

subsection \<open>The per-thread buffer and the file source\<close>

text \<open>
  The members of \<^verbatim>\<open>PerThreadReadBuf\<close> that the FASTQ light parser and \<^verbatim>\<open>nextBatch\<close> write:
  the id of the first record of the batch (\<^verbatim>\<open>setReadId\<close>), the two raw byte buffers
  (arrays of a fixed capacity) with their lengths, the target size and the head-room.
\<close>

record PerThreadReadBuf =
  pt_rdid :: nat
  use_byte_buffer :: bool
  raw_bufa :: string
  raw_bufb :: string
  raw_bufa_length :: nat
  raw_bufb_length :: nat
  max_raw_buf :: nat
  max_raw_buf_overrun :: nat

text \<open>
  \<^verbatim>\<open>CFilePatternSource\<close>: the list of input files, the index of the next file to open, one
  flag per file for a warning already given, the open file, whether the next read is the
  first of its file, and the counter of records handed out. \<open>cerr\<close> collects the
  diagnostics.
\<close>

record CFilePatternSource =
  infiles :: "string list"
  filecur :: nat
  errs :: "bool list"
  is_open :: bool
  fp :: string
  first :: bool
  readCnt :: nat
  cerr :: "string list"

subsection \<open>CFilePatternSource::open\<close>

definition could_not_open :: "string \<Rightarrow> string" where
  "could_not_open name =
     ''Warning: Could not open read file \"'' @ name @ ''\" for reading; skipping...''"

function open_next :: "filesystem \<Rightarrow> CFilePatternSource \<Rightarrow> error + CFilePatternSource" where
  "open_next fs s =
     (if filecur s < length (infiles s) then
        (if infiles s ! filecur s = ''-'' then Inr (s\<lparr>fp := stdin fs, is_open := True\<rparr>)
         else
           case fopen fs (infiles s ! filecur s) of
             None \<Rightarrow>
               open_next fs
                 ((if \<not> errs s ! filecur s
                   then s\<lparr>cerr := cerr s @ [could_not_open (infiles s ! filecur s)],
                          errs := (errs s)[filecur s := True]\<rparr>
                   else s)\<lparr>filecur := filecur s + 1\<rparr>)
           | Some bytes \<Rightarrow> Inr (s\<lparr>fp := bytes, is_open := True\<rparr>))
      else Inl (Exited ''Error: No input read files were valid''))"
  by pat_completeness auto
termination
  by (relation "measure (\<lambda>(fs, s). length (infiles s) - filecur s)") auto

declare open_next.simps [simp del]

definition CFilePatternSource_open :: "filesystem \<Rightarrow> CFilePatternSource \<Rightarrow> error + CFilePatternSource" where
  "CFilePatternSource_open fs s =
     open_next fs (if is_open s then s\<lparr>is_open := False, fp := []\<rparr> else s)"

subsection \<open>FastqPatternSource::nextBatchFromFile\<close>

definition is_eol :: "char option \<Rightarrow> bool" where
  "is_eol c \<longleftrightarrow> c = Some CHR ''\<newline>'' \<or> c = Some (CHR 0x0D)"

definition seq_start :: "char option \<Rightarrow> bool" where
  "seq_start c \<longleftrightarrow>
     (case c of None \<Rightarrow> False
      | Some ch \<Rightarrow> (of_char ch :: nat) \<ge> 65 \<or> ch = CHR ''*'' \<or> ch = CHR ''-'')"

text \<open>The loop that skips line ends before the first record of a file.\<close>

fun skip_eols :: "char option \<Rightarrow> string \<Rightarrow> char option \<times> string" where
  "skip_eols c [] = (if is_eol c then (None, []) else (c, []))"
| "skip_eols c (x # xs) = (if is_eol c then skip_eols (Some x) xs else (c, x # xs))"

text \<open>The loop that fills the buffer up to the target size; it stops at \<^verbatim>\<open>EOF\<close>.\<close>

fun fill_raw :: "nat \<Rightarrow> nat \<Rightarrow> string \<Rightarrow> string \<Rightarrow> nat \<times> string \<times> string" where
  "fill_raw mx bytes_read readBuf [] = (bytes_read, readBuf, [])"
| "fill_raw mx bytes_read readBuf (x # xs) =
     (if bytes_read < mx then fill_raw mx (bytes_read + 1) (readBuf[bytes_read := x]) xs
      else (bytes_read, readBuf, x # xs))"

text \<open>
  The loop that reads on into the head-room. \<open>c\<close> is the byte read ahead and not yet
  stored. The result is the state at the exit of the loop: \<open>c\<close>, \<open>i\<close>, the buffer, the
  file, \<open>new_record\<close> and \<open>newlines\<close>. \<^verbatim>\<open>prev_c\<close> and \<^verbatim>\<open>prev_line_start_c\<close> are
  \<^verbatim>\<open>char\<close>s that start at \<^verbatim>\<open>-1\<close> and are only compared with \<open>@\<close> and the two line
  ends; they are kept as the \<^verbatim>\<open>int\<close> they were assigned from.
\<close>

function finish_record ::
  "nat \<Rightarrow> nat \<Rightarrow> char option \<Rightarrow> nat \<Rightarrow> char option \<Rightarrow> bool \<Rightarrow> nat \<Rightarrow> string \<Rightarrow> string
   \<Rightarrow> char option \<times> nat \<times> string \<times> string \<times> bool \<times> nat" where
  "finish_record headroom bytes_read c i prev_line_start_c new_record newlines readBuf f =
     (if c \<noteq> None \<and> i < headroom \<and> (\<not> new_record \<or> newlines < 4) then
        (let readBuf1 = readBuf[bytes_read + i := the c];
             prev_c = c;
             (c1, f1) = getc_unlocked f;
             found = (\<not> new_record \<and> is_eol prev_c \<and> prev_line_start_c = Some CHR ''@'' \<and>
                      seq_start c1);
             new_record1 = (new_record \<or> found);
             newlines1 = (if found then 1 else newlines);
             prev_line_start_c1 = (if is_eol prev_c then c1 else prev_line_start_c);
             newlines2 = (if is_eol c1 then newlines1 + 1 else newlines1)
         in finish_record headroom bytes_read c1 (i + 1) prev_line_start_c1 new_record1 newlines2
              readBuf1 f1)
      else (c, i, readBuf, f, new_record, newlines))"
  by pat_completeness auto
termination
  by (relation "measure (\<lambda>(headroom, bytes_read, c, i, rest). headroom - i)") auto

declare finish_record.simps [simp del]

text \<open>\<^verbatim>\<open>(max_raw_buf_ - bytes_read) + max_raw_buf_overrun_\<close> is computed in 64-bit
  unsigned numbers.\<close>

definition size_sub :: "nat \<Rightarrow> nat \<Rightarrow> nat" where
  "size_sub a b = (if b \<le> a then a - b else 2 ^ 64 - (b - a))"

definition fastq_headroom :: "nat \<Rightarrow> nat \<Rightarrow> nat \<Rightarrow> nat" where
  "fastq_headroom mx bytes_read overrun = (size_sub mx bytes_read + overrun) mod 2 ^ 64"

text \<open>The block under \<^verbatim>\<open>if(first_)\<close>: skip line ends, insist on \<open>@\<close>, and store it. The
  result is \<open>bytes_read\<close>, the buffer and the source.\<close>

definition fastq_first ::
  "string \<Rightarrow> CFilePatternSource \<Rightarrow> error + (nat \<times> string \<times> CFilePatternSource)" where
  "fastq_first readBuf s =
     (if first s then
        (let (c0, f0) = getc_unlocked (fp s);
             (c, f) = skip_eols c0 f0
         in if c \<noteq> Some CHR ''@''
            then Inl (Thrown ''Error: reads file does not look like a FASTQ file'')
            else Inr (1, readBuf[0 := CHR ''@''], s\<lparr>fp := f, first := False\<rparr>))
      else Inr (0, readBuf, s))"

text \<open>The length returned is a \<^verbatim>\<open>size_t\<close> converted to \<^verbatim>\<open>int\<close>; the buffers are taken to be
  shorter than \<open>2^31\<close> bytes.\<close>

definition FastqPatternSource_nextBatchFromFile ::
  "PerThreadReadBuf \<Rightarrow> bool \<Rightarrow> CFilePatternSource
   \<Rightarrow> error + ((bool \<times> int) \<times> CFilePatternSource \<times> PerThreadReadBuf)" where
  "FastqPatternSource_nextBatchFromFile pt batch_a s =
     (let pt1 = pt\<lparr>use_byte_buffer := True\<rparr>;
          readBuf = (if batch_a then raw_bufa pt1 else raw_bufb pt1)
      in
        case fastq_first readBuf s of
          Inl e \<Rightarrow> Inl e
        | Inr (bytes_read0, readBuf0, s0) \<Rightarrow>
            (let (bytes_read, readBuf1, f1) = fill_raw (max_raw_buf pt1) bytes_read0 readBuf0 (fp s0)
             in if bytes_read = 0 then
                  Inr ((True, int (if batch_a then raw_bufa_length pt1 else raw_bufb_length pt1)),
                       s0\<lparr>fp := f1\<rparr>,
                       (if batch_a then pt1\<lparr>raw_bufa := readBuf1\<rparr> else pt1\<lparr>raw_bufb := readBuf1\<rparr>))
                else
                  (let headroom = fastq_headroom (max_raw_buf pt1) bytes_read
                                    (max_raw_buf_overrun pt1);
                       (c0, f2) = getc_unlocked f1;
                       (c, i, readBuf2, f3, new_record, newlines) =
                          finish_record headroom bytes_read c0 0 None False 0 readBuf1 f2;
                       readBuf3 = (if c \<noteq> None \<and> i < headroom
                                   then readBuf2[bytes_read + i := the c] else readBuf2);
                       done = (c = None);
                       len = bytes_read + i + (if i > 0 then 1 else 0)
                   in Inr ((done, int len),
                           s0\<lparr>fp := f3\<rparr>,
                           (if batch_a then pt1\<lparr>raw_bufa := readBuf3, raw_bufa_length := len\<rparr>
                            else pt1\<lparr>raw_bufb := readBuf3, raw_bufb_length := len\<rparr>)))))"

subsection \<open>CFilePatternSource::nextBatch\<close>

text \<open>
  \<^verbatim>\<open>nextBatchFromFile\<close> and \<^verbatim>\<open>resetForNextFile\<close> are virtual: they are the parameters
  \<open>nbff\<close> and \<open>reset\<close>. Both loops may go on for ever when \<open>nbff\<close> keeps returning no
  record without being done, and then the result is \<open>None\<close>.
\<close>

type_synonym 'a outcome = "(error + 'a) option"

type_synonym batch_reader =
  "PerThreadReadBuf \<Rightarrow> bool \<Rightarrow> CFilePatternSource
   \<Rightarrow> error + ((bool \<times> int) \<times> CFilePatternSource \<times> PerThreadReadBuf)"

partial_function (option) read_some ::
  "batch_reader \<Rightarrow> PerThreadReadBuf \<Rightarrow> bool \<Rightarrow> CFilePatternSource
   \<Rightarrow> ((bool \<times> int) \<times> CFilePatternSource \<times> PerThreadReadBuf) outcome" where
  "read_some nbff pt batch_a s =
     (case nbff pt batch_a s of
        Inl e \<Rightarrow> Some (Inl e)
      | Inr ((done, nread), s1, pt1) \<Rightarrow>
          if \<not> done \<and> nread = 0 then read_some nbff pt1 batch_a s1
          else Some (Inr ((done, nread), s1, pt1)))"

partial_function (option) next_file_loop ::
  "batch_reader \<Rightarrow> (CFilePatternSource \<Rightarrow> CFilePatternSource) \<Rightarrow> filesystem
   \<Rightarrow> PerThreadReadBuf \<Rightarrow> bool \<Rightarrow> CFilePatternSource
   \<Rightarrow> ((bool \<times> int) \<times> CFilePatternSource \<times> PerThreadReadBuf) outcome" where
  "next_file_loop nbff reset fs pt batch_a s =
     (case read_some nbff pt batch_a s of
        None \<Rightarrow> None
      | Some (Inl e) \<Rightarrow> Some (Inl e)
      | Some (Inr ((done, nread), s1, pt1)) \<Rightarrow>
          if done \<and> filecur s1 < length (infiles s1) then
            (case CFilePatternSource_open fs s1 of
               Inl e \<Rightarrow> Some (Inl e)
             | Inr s2 \<Rightarrow>
                 (let s3 = (reset s2)\<lparr>filecur := filecur (reset s2) + 1\<rparr>
                  in if nread = 0 then next_file_loop nbff reset fs pt1 batch_a s3
                     else Some (Inr ((done, nread), s3, pt1))))
          else Some (Inr ((done, nread), s1, pt1)))"

definition CFilePatternSource_nextBatch ::
  "bool \<Rightarrow> batch_reader \<Rightarrow> (CFilePatternSource \<Rightarrow> CFilePatternSource) \<Rightarrow> filesystem
   \<Rightarrow> PerThreadReadBuf \<Rightarrow> bool \<Rightarrow> bool \<Rightarrow> CFilePatternSource
   \<Rightarrow> ((bool \<times> int) \<times> CFilePatternSource \<times> PerThreadReadBuf) outcome" where
  "CFilePatternSource_nextBatch ndebug nbff reset fs pt batch_a lock s =
     (case next_file_loop nbff reset fs (pt\<lparr>pt_rdid := readCnt s\<rparr>) batch_a s of
        None \<Rightarrow> None
      | Some (Inl e) \<Rightarrow> Some (Inl e)
      | Some (Inr ((done, nread), s1, pt1)) \<Rightarrow>
          if assert_fails ndebug (nread \<ge> 0) then Some (Inl AssertionFailed)
          else Some (Inr ((done, nread),
                          s1\<lparr>readCnt := nat ((int (readCnt s1) + nread) mod 2 ^ 64)\<rparr>, pt1)))"

subsection \<open>The composers\<close>

text \<open>
  A composer holds pattern sources of any kind and calls their virtual \<^verbatim>\<open>nextBatch\<close>,
  the parameter \<open>nb\<close> (\<open>nb s pt batch_a lock\<close>), which may fail and may not return.
  \<^verbatim>\<open>readCount()\<close> is the parameter \<open>rc\<close>. The local \<^verbatim>\<open>cur\<close> is set from \<^verbatim>\<open>cur_\<close> on
  entry and again after every advance, so with one thread running it is \<^verbatim>\<open>cur_\<close> at the
  head of every iteration; the model reads it from there.
\<close>

type_synonym ('s, 'p) source_nextBatch =
  "'s \<Rightarrow> 'p \<Rightarrow> bool \<Rightarrow> bool \<Rightarrow> ((bool \<times> int) \<times> 's \<times> 'p) outcome"

record 's SoloPatternComposer =
  solo_src :: "'s list"
  solo_cur :: nat


text \<open>The \<^verbatim>\<open>do ... while(!res.first && res.second == 0)\<close> of the solo composer.\<close>

partial_function (option) solo_draw ::
  "('s, 'p) source_nextBatch \<Rightarrow> 's \<Rightarrow> 'p \<Rightarrow> ((bool \<times> int) \<times> 's \<times> 'p) outcome" where
  "solo_draw nb s pt =
     (case nb s pt True True of
        None \<Rightarrow> None
      | Some (Inl e) \<Rightarrow> Some (Inl e)
      | Some (Inr (res, s1, pt1)) \<Rightarrow>
          if \<not> fst res \<and> snd res = 0 then solo_draw nb s1 pt1
          else Some (Inr (res, s1, pt1)))"

partial_function (option) SoloPatternComposer_nextBatch ::
  "bool \<Rightarrow> ('s, 'p) source_nextBatch \<Rightarrow> 'p \<Rightarrow> 's SoloPatternComposer
   \<Rightarrow> ((bool \<times> int) \<times> 's SoloPatternComposer \<times> 'p) outcome" where
  "SoloPatternComposer_nextBatch ndebug nb pt c =
     (if solo_cur c < length (solo_src c) then
        (case solo_draw nb (solo_src c ! solo_cur c) pt of
           None \<Rightarrow> None
         | Some (Inl e) \<Rightarrow> Some (Inl e)
         | Some (Inr (res, s1, pt1)) \<Rightarrow>
             if snd res = 0 then
               SoloPatternComposer_nextBatch ndebug nb pt1
                 (if solo_cur c + 1 > solo_cur c
                  then c\<lparr>solo_src := (solo_src c)[solo_cur c := s1], solo_cur := solo_cur c + 1\<rparr>
                  else c\<lparr>solo_src := (solo_src c)[solo_cur c := s1]\<rparr>)
             else Some (Inr (res, c\<lparr>solo_src := (solo_src c)[solo_cur c := s1]\<rparr>, pt1)))
      else if assert_fails ndebug (solo_cur c \<le> length (solo_src c)) then Some (Inl AssertionFailed)
      else Some (Inr ((True, 0), c, pt)))"




subsection \<open>PatternSourcePerThread::nextReadPair\<close>

text \<open>
  The per-thread reader of pat.cpp works on its \<^verbatim>\<open>PerThreadReadBuf\<close> through members that
  pat.h defines; they are the fields of \<open>reader_ops\<close>, over any buffer type \<open>'b\<close>.
  \<^verbatim>\<open>nextBatch()\<close> is the parameter \<open>nextBatch\<close>, over any composer type \<open>'c\<close>.
\<close>

record 'b reader_ops =
  exhausted :: "'b \<Rightarrow> bool"
  next_read :: "'b \<Rightarrow> 'b"
  cur_buf :: "'b \<Rightarrow> nat"
  read_a_empty :: "'b \<Rightarrow> bool"
  read_b_has_orig :: "'b \<Rightarrow> bool"
  parse :: "'b \<Rightarrow> error + (bool \<times> 'b)"
  finalize :: "'b \<Rightarrow> 'b"
  finalizePair :: "'b \<Rightarrow> 'b"
  is_last :: "'b \<Rightarrow> int \<Rightarrow> bool"

record 'b PatternSourcePerThread =
  buf :: 'b
  last_batch :: bool
  last_batch_size :: int

text \<open>The first statement, "prepare batch": it returns early (\<open>Inl\<close>) with "not
  successful, done", or goes on (\<open>Inr\<close>).\<close>

definition prepare_batch ::
  "bool \<Rightarrow> 'b reader_ops \<Rightarrow> ('c \<Rightarrow> 'b \<Rightarrow> ((bool \<times> int) \<times> 'c \<times> 'b) outcome) \<Rightarrow> 'c
   \<Rightarrow> 'b PatternSourcePerThread
   \<Rightarrow> (((bool \<times> bool) \<times> 'c \<times> 'b PatternSourcePerThread) + ('c \<times> 'b PatternSourcePerThread)) outcome"
  where
  "prepare_batch ndebug ops nextBatch composer r =
     (if exhausted ops (buf r) then
        (case nextBatch composer (buf r) of
           None \<Rightarrow> None
         | Some (Inl e) \<Rightarrow> Some (Inl e)
         | Some (Inr (res, composer1, b1)) \<Rightarrow>
             if fst res \<and> snd res = 0 then Some (Inr (Inl ((False, True), composer1, r\<lparr>buf := b1\<rparr>)))
             else if assert_fails ndebug (cur_buf ops b1 = 0) then Some (Inl AssertionFailed)
             else Some (Inr (Inr (composer1, r\<lparr>buf := b1, last_batch := fst res,
                                          last_batch_size := snd res\<rparr>))))
      else
        (let b1 = next_read ops (buf r)
         in if assert_fails ndebug (cur_buf ops b1 > 0) then Some (Inl AssertionFailed)
            else Some (Inr (Inr (composer, r\<lparr>buf := b1\<rparr>)))))"

definition PatternSourcePerThread_nextReadPair ::
  "bool \<Rightarrow> 'b reader_ops \<Rightarrow> ('c \<Rightarrow> 'b \<Rightarrow> ((bool \<times> int) \<times> 'c \<times> 'b) outcome) \<Rightarrow> 'c
   \<Rightarrow> 'b PatternSourcePerThread \<Rightarrow> ((bool \<times> bool) \<times> 'c \<times> 'b PatternSourcePerThread) outcome"
  where
  "PatternSourcePerThread_nextReadPair ndebug ops nextBatch composer r =
     (case prepare_batch ndebug ops nextBatch composer r of
        None \<Rightarrow> None
      | Some (Inl e) \<Rightarrow> Some (Inl e)
      | Some (Inr (Inl early)) \<Rightarrow> Some (Inr early)
      | Some (Inr (Inr (composer1, r1))) \<Rightarrow>
          if assert_fails ndebug (read_a_empty ops (buf r1)) then Some (Inl AssertionFailed)
          else
            (case parse ops (buf r1) of
               Inl e \<Rightarrow> Some (Inl e)
             | Inr (ok, b2) \<Rightarrow>
                 if \<not> ok then Some (Inr ((False, False), composer1, r1\<lparr>buf := b2\<rparr>))
                 else
                   (let b3 = (if read_b_has_orig ops b2 then finalizePair ops b2
                              else finalize ops b2);
                        this_is_last = is_last ops b3 (last_batch_size r1)
                    in Some (Inr ((True, if this_is_last then last_batch r1 else False),
                                  composer1, r1\<lparr>buf := b3\<rparr>)))))"

subsection \<open>Example inputs\<close>

text \<open>
  A source that plays back a list of \<^verbatim>\<open>nextBatch\<close> results and then reports that it is
  done; a pair of such sources where end A gives ten records and end B eight; a reader
  whose buffer is always exhausted; a solo composer over a source that first returns
  nothing without being done; and one over a source whose only batch is its last.
\<close>

definition scripted :: "((bool \<times> int) list, unit) source_nextBatch" where
  "scripted s pt batch_a lock =
     (case s of [] \<Rightarrow> Some (Inr ((True, 0), [], pt)) | r # rs \<Rightarrow> Some (Inr (r, rs, pt)))"


definition trivial_ops :: "unit reader_ops" where
  "trivial_ops =
     \<lparr>exhausted = (\<lambda>b. True), next_read = (\<lambda>b. b), cur_buf = (\<lambda>b. 0), read_a_empty = (\<lambda>b. True),
      read_b_has_orig = (\<lambda>b. False), parse = (\<lambda>b. Inr (True, b)), finalize = (\<lambda>b. b),
      finalizePair = (\<lambda>b. b), is_last = (\<lambda>b n. True)\<rparr>"

definition stutter_then_end :: "(bool \<times> int) list SoloPatternComposer" where
  "stutter_then_end = \<lparr>solo_src = [[(False, 0), (True, 0)]], solo_cur = 0\<rparr>"

definition last_record :: "(bool \<times> int) list SoloPatternComposer" where
  "last_record = \<lparr>solo_src = [[(True, 1)]], solo_cur = 0\<rparr>"



definition four_records :: string where
  "four_records = ''@a\<newline>A\<newline>+\<newline>I\<newline>@b\<newline>C\<newline>+\<newline>I\<newline>@c\<newline>G\<newline>+\<newline>I\<newline>@d\<newline>T\<newline>+\<newline>I\<newline>''"

definition small_buf :: PerThreadReadBuf where
  "small_buf = \<lparr>pt_rdid = 0, use_byte_buffer = False,
     raw_bufa = ''.........................................'',
     raw_bufb = ''.........................................'', raw_bufa_length = 0, raw_bufb_length = 0,
     max_raw_buf = 9, max_raw_buf_overrun = 32\<rparr>"

definition one_file :: CFilePatternSource where
  "one_file = \<lparr>infiles = [''reads.fq''], filecur = 1, errs = [False], is_open = True,
     fp = four_records, first = True, readCnt = 0, cerr = []\<rparr>"

definition good_then_missing :: filesystem where
  "good_then_missing =
     \<lparr>fopen = (\<lambda>name. if name = ''good.fq'' then Some ''@r\<newline>A\<newline>+\<newline>I\<newline>'' else None),
      stdin = []\<rparr>"

definition two_files :: CFilePatternSource where
  "two_files = \<lparr>infiles = [''good.fq'', ''missing.fq''], filecur = 0, errs = [False, False],
     is_open = False, fp = [], first = True, readCnt = 0, cerr = []\<rparr>"

definition good_open :: CFilePatternSource where
  "good_open = \<lparr>infiles = [''good.fq'', ''missing.fq''], filecur = 1, errs = [False, False],
     is_open = True, fp = ''@r\<newline>A\<newline>+\<newline>I\<newline>'', first = True, readCnt = 0, cerr = []\<rparr>"

definition batch1_src :: CFilePatternSource where
  "batch1_src = \<lparr>infiles = [''reads.fq''], filecur = 1, errs = [False], is_open = True,
     fp = ''@d\<newline>T\<newline>+\<newline>I\<newline>'', first = False, readCnt = 27, cerr = []\<rparr>"

definition batch1_buf :: PerThreadReadBuf where
  "batch1_buf = \<lparr>pt_rdid = 0, use_byte_buffer = True,
     raw_bufa = ''@a\<newline>A\<newline>+\<newline>I\<newline>@b\<newline>C\<newline>+\<newline>I\<newline>@c\<newline>G\<newline>+\<newline>I\<newline>..............'',
     raw_bufb = ''.........................................'', raw_bufa_length = 27, raw_bufb_length = 0,
     max_raw_buf = 9, max_raw_buf_overrun = 32\<rparr>"

definition batch2_src :: CFilePatternSource where
  "batch2_src = \<lparr>infiles = [''reads.fq''], filecur = 1, errs = [False], is_open = True,
     fp = [], first = False, readCnt = 36, cerr = []\<rparr>"

definition batch2_buf :: PerThreadReadBuf where
  "batch2_buf = \<lparr>pt_rdid = 27, use_byte_buffer = True,
     raw_bufa = ''@d\<newline>T\<newline>+\<newline>I\<newline>@b\<newline>C\<newline>+\<newline>I\<newline>@c\<newline>G\<newline>+\<newline>I\<newline>..............'',
     raw_bufb = ''.........................................'', raw_bufa_length = 9, raw_bufb_length = 0,
     max_raw_buf = 9, max_raw_buf_overrun = 32\<rparr>"

section \<open>Properties of the output queue\<close>

lemma clear_new_slots_eq:
  "i \<le> length (lines q) \<Longrightarrow> length (started q) = length (lines q) \<Longrightarrow> length (finished q) = length (lines q) \<Longrightarrow>
   clear_new_slots i q =
     q\<lparr>finished := take i (finished q) @ replicate (length (lines q) - i) False,
       started := take i (started q) @ replicate (length (lines q) - i) False\<rparr>"
proof (induction i q rule: clear_new_slots.induct)
  case (1 i q)
  show ?case
  proof (cases "i < length (lines q)")
    case False
    with "1.prems" have "i = length (lines q)" by simp
    have "clear_new_slots i q = q" using False clear_new_slots.simps[of i q] by simp
    with \<open>i = length (lines q)\<close> "1.prems" show ?thesis by simp
  next
    case True
    let ?q = "q\<lparr>finished := (finished q)[i := False], started := (started q)[i := False]\<rparr>"
    have ih: "clear_new_slots (i + 1) ?q =
        ?q\<lparr>finished := take (i + 1) (finished ?q) @ replicate (length (lines ?q) - (i + 1)) False,
          started := take (i + 1) (started ?q) @ replicate (length (lines ?q) - (i + 1)) False\<rparr>"
      using "1.IH"[OF True] True "1.prems" by simp
    have t1: "take (i + 1) ((finished q)[i := False]) = take i (finished q) @ [False]"
      using True "1.prems" by (simp add: take_Suc_conv_app_nth)
    have t2: "take (i + 1) ((started q)[i := False]) = take i (started q) @ [False]"
      using True "1.prems" by (simp add: take_Suc_conv_app_nth)
    have r: "replicate (length (lines q) - i) False = False # replicate (length (lines q) - (i + 1)) False"
      using True by (metis Suc_diff_Suc add.commute plus_1_eq_Suc replicate_Suc)
    have "clear_new_slots i q = clear_new_slots (i + 1) ?q"
      using True clear_new_slots.simps[of i q] by simp
    then show ?thesis
      using ih t1 t2 r by simp
  qed
qed

lemma writeString_ok:
  "ofhs q \<noteq> [] \<Longrightarrow> room (ofhs q ! 0) = None \<Longrightarrow> writeString s 0 q = Inr (emit s q)"
proof -
  assume a: "ofhs q \<noteq> []" "room (ofhs q ! 0) = None"
  have r: "\<And>f :: ostream. room f = None \<Longrightarrow> f\<lparr>room := None\<rparr> = f"
    by simp
  show ?thesis using a by (simp add: writeString_def fwrite_def emit_def r)
qed

lemma emit_fields [simp]:
  "lines (emit s q) = lines q" "started (emit s q) = started q" "finished (emit s q) = finished q"
  "cur (emit s q) = cur q" "reorder (emit s q) = reorder q" "nthreads (emit s q) = nthreads q"
  "perThreadCounter (emit s q) = perThreadCounter q" "perThreadBufSize (emit s q) = perThreadBufSize q"
  "perThreadFlushed (emit s q) = perThreadFlushed q"
  "length (ofhs (emit s q)) = length (ofhs q)"
  by (simp_all add: emit_def)

lemma emit_out [simp]:
  "ofhs q \<noteq> [] \<Longrightarrow> contents (ofhs (emit s q) ! 0) = contents (ofhs q ! 0) @ s"
  "ofhs q \<noteq> [] \<Longrightarrow> room (ofhs (emit s q) ! 0) = room (ofhs q ! 0)"
  "(ofhs (emit s q) = []) = (ofhs q = [])"
  by (simp_all add: emit_def)

lemma emit_emit: "ofhs q \<noteq> [] \<Longrightarrow> emit t (emit s q) = emit (s @ t) q"
  by (simp add: emit_def)

lemma emit_Nil: "ofhs q \<noteq> [] \<Longrightarrow> emit [] q = q"
  by (simp add: emit_def)

lemma write_finished_ok:
  assumes "ofhs q \<noteq> []" "room (ofhs q ! 0) = None" "n \<le> length (lines q)"
    "length (started q) = length (lines q)" "length (finished q) = length (lines q)"
    "\<forall>k<n. finished q ! k \<and> started q ! k" "i \<le> n"
  shows "write_finished i n q = Inr (emit (concat (map ((!) (lines q)) [i..<n])) q)"
  using assms
proof (induction i n q rule: write_finished.induct)
  case (1 i n q)
  show ?case
  proof (cases "i < n")
    case False
    then have "write_finished i n q = Inr q" using write_finished.simps[of i n q] by simp
    with False "1.prems" show ?thesis by (simp add: emit_Nil)
  next
    case True
    have w: "writeString (lines q ! i) 0 q = Inr (emit (lines q ! i) q)"
      using "1.prems" by (simp add: writeString_ok)
    have unf: "write_finished i n q = write_finished (i + 1) n (emit (lines q ! i) q)"
      using True "1.prems" w write_finished.simps[of i n q] by simp
    have ih: "write_finished (i + 1) n (emit (lines q ! i) q)
        = Inr (emit (concat (map ((!) (lines q)) [i + 1..<n])) (emit (lines q ! i) q))"
      using "1.IH"[OF True _ _ _ w] True "1.prems" by simp
    have "[i..<n] = i # [i + 1..<n]" using True by (simp add: upt_conv_Cons)
    then show ?thesis using unf ih "1.prems" by (simp add: emit_emit)
  qed
qed

lemma count_finished_ok:
  assumes "\<forall>k<length (finished q). finished q ! k \<longrightarrow> k < length (started q) \<and> started q ! k"
    "n \<le> length (finished q)"
  shows "count_finished n q = Inr (n + length (takeWhile (\<lambda>b. b) (drop n (finished q))))"
  using assms
proof (induction n q rule: count_finished.induct)
  case (1 n q)
  show ?case
  proof (cases "n < length (finished q) \<and> finished q ! n")
    case False
    then have "count_finished n q = Inr n" using count_finished.simps[of n q] by auto
    moreover have "takeWhile (\<lambda>b. b) (drop n (finished q)) = []"
    proof (cases "n < length (finished q)")
      case True
      with False show ?thesis by (simp add: takeWhile_eq_Nil_iff hd_drop_conv_nth)
    next
      case False
      then show ?thesis by simp
    qed
    ultimately show ?thesis by simp
  next
    case True
    then have st: "n < length (started q) \<and> started q ! n" using "1.prems" by blast
    have unf: "count_finished n q = count_finished (n + 1) q"
      using True st count_finished.simps[of n q] by simp
    have d: "drop n (finished q) = True # drop (n + 1) (finished q)"
      using True Cons_nth_drop_Suc[of n "finished q"] by simp
    show ?thesis using unf "1.IH" True st "1.prems" d by simp
  qed
qed

lemma nready_le: "nready q \<le> length (finished q)"
  by (simp add: nready_def length_takeWhile_le)

lemma nready_finished: "k < nready q \<Longrightarrow> finished q ! k"
proof -
  assume k: "k < nready q"
  then have "takeWhile (\<lambda>b. b) (finished q) ! k \<in> set (takeWhile (\<lambda>b. b) (finished q))"
    by (simp add: nready_def)
  then have "takeWhile (\<lambda>b. b) (finished q) ! k" by (auto dest: set_takeWhileD)
  then show ?thesis using k by (simp add: nready_def takeWhile_nth)
qed

lemma nready_stop: "nready q < length (finished q) \<Longrightarrow> \<not> finished q ! nready q"
  unfolding nready_def by (rule nth_length_takeWhile)

lemma flushImpl_ok:
  assumes "reorder q" "window_ok q" "ofhs q \<noteq> []" "room (ofhs q ! 0) = None"
  shows "flushImpl T force q = Inr (if force \<or> T \<le> nready q then flushed (nready q) q else q)"
proof -
  have c: "count_finished 0 q = Inr (nready q)"
    using count_finished_ok[of q 0] assms(2) by (simp add: window_ok_def nready_def)
  have le: "nready q \<le> length (lines q)"
    using assms(2) length_takeWhile_le[of "\<lambda>b. b" "finished q"] by (simp add: nready_def window_ok_def)
  have allf: "\<forall>k<nready q. finished q ! k"
    using nready_finished by blast
  then have alls: "\<forall>k<nready q. finished q ! k \<and> started q ! k"
    using assms(2) le by (auto simp: window_ok_def)
  have w: "write_finished 0 (nready q) q = Inr (emit (concat (map ((!) (lines q)) [0..<nready q])) q)"
    using write_finished_ok[of q "nready q" 0] assms le alls by (simp add: window_ok_def)
  have m: "map ((!) (lines q)) [0..<nready q] = take (nready q) (lines q)"
    using le by (simp add: list_eq_iff_nth_eq)
  show ?thesis
    using assms(1) c w m by (simp add: flushImpl_def flushed_def)
qed

lemma beginReadImpl_Inr:
  assumes "reorder q" "beginReadImpl rdid t q = Inr q'"
  shows "q' = began rdid t q \<and> t < nthreads q \<and> perThreadCounter q ! t \<le> perThreadBufSize q \<and> cur q \<le> rdid \<and>
         length (finished q) = length (lines q) \<and> length (started q) = length (lines q)"
proof -
  let ?q1 = "q\<lparr>perThreadStarted := (perThreadStarted q)[t := perThreadStarted q ! t + 1]\<rparr>"
  from assms have c: "t < nthreads q" "perThreadCounter q ! t \<le> perThreadBufSize q" "cur q \<le> rdid"
    "length (finished q) = length (lines q)" "length (started q) = length (lines q)"
    by (auto simp: beginReadImpl_def Let_def split: if_splits)
  show ?thesis
  proof (cases "rdid - cur q \<ge> length (lines q)")
    case True
    let ?q2 = "?q1\<lparr>lines := resize (rdid - cur q + 1) [] (lines q),
                    started := resize (rdid - cur q + 1) False (started q),
                    finished := resize (rdid - cur q + 1) False (finished q)\<rparr>"
    have cl: "clear_new_slots (length (lines q)) ?q2 =
         ?q2\<lparr>finished := take (length (lines q)) (finished ?q2) @ replicate (length (lines ?q2) - length (lines q)) False,
             started := take (length (lines q)) (started ?q2) @ replicate (length (lines ?q2) - length (lines q)) False\<rparr>"
      using True c by (intro clear_new_slots_eq) (simp_all add: resize_def)
    have "q' = began rdid t q"
      using assms c True cl by (simp add: beginReadImpl_def Let_def began_def resize_def)
    with c show ?thesis by simp
  next
    case False
    then have "q' = began rdid t q"
      using assms c by (simp add: beginReadImpl_def Let_def began_def)
    with c show ?thesis by simp
  qed
qed

lemma beginReadImpl_ok:
  assumes "reorder q" "t < nthreads q" "perThreadCounter q ! t \<le> perThreadBufSize q" "cur q \<le> rdid"
    "length (finished q) = length (lines q)" "length (started q) = length (lines q)"
  shows "beginReadImpl rdid t q = Inr (began rdid t q)"
proof -
  have "\<exists>q'. beginReadImpl rdid t q = Inr q'"
    using assms by (simp add: beginReadImpl_def Let_def)
  then show ?thesis using beginReadImpl_Inr[OF assms(1)] by blast
qed

lemma began_fields [simp]:
  "cur (began i t q) = cur q" "reorder (began i t q) = reorder q" "nthreads (began i t q) = nthreads q"
  "ofhs (began i t q) = ofhs q" "perThreadCounter (began i t q) = perThreadCounter q"
  "perThreadBufSize (began i t q) = perThreadBufSize q"
  "lines (began i t q) = lines q @ replicate (i - cur q + 1 - length (lines q)) []"
  "started (began i t q) = (started q @ replicate (i - cur q + 1 - length (lines q)) False)[i - cur q := True]"
  "finished (began i t q) = (finished q @ replicate (i - cur q + 1 - length (lines q)) False)[i - cur q := False]"
  by (simp_all add: began_def)

lemma began_window_ok:
  assumes "window_ok q"
  shows "window_ok (began i t q)"
  using assms by (auto simp: window_ok_def nth_list_update nth_append)

lemma tracksD:
  assumes "tracks nt B F q"
  shows "reorder q" "window_ok q" "nthreads q = nt" "ofhs q \<noteq> []" "room (ofhs q ! 0) = None"
    "\<forall>t < nt. perThreadCounter q ! t \<le> perThreadBufSize q"
    "dom F \<subseteq> B" "\<forall>i < cur q. i \<in> dom F" "\<forall>i \<in> B. i < cur q + length (lines q)"
    "\<forall>k < length (lines q).
        (started q ! k \<longleftrightarrow> cur q + k \<in> B) \<and>
        (finished q ! k \<longleftrightarrow> cur q + k \<in> dom F) \<and>
        (finished q ! k \<longrightarrow> F (cur q + k) = Some (lines q ! k))"
    "lines q \<noteq> [] \<longrightarrow> started q ! (length (lines q) - 1)"
    "contents (ofhs q ! 0) = concat (map (the_text F) [0..<cur q])"
  using assms unfolding tracks_def by blast+

lemma tracks_began:
  assumes tr: "tracks nt B F q" and nb: "i \<notin> B"
  shows "tracks nt (insert i B) F (began i t q)"
proof -
  let ?d = "i - cur q" and ?len = "length (lines q)"
  from tr have w: "window_ok q" and sub: "dom F \<subseteq> B" and low: "\<forall>j<cur q. j \<in> dom F"
    and hi: "\<forall>j\<in>B. j < cur q + ?len"
    and slots: "\<forall>k<?len. (started q ! k \<longleftrightarrow> cur q + k \<in> B) \<and> (finished q ! k \<longleftrightarrow> cur q + k \<in> dom F) \<and>
                 (finished q ! k \<longrightarrow> F (cur q + k) = Some (lines q ! k))"
    and lst: "lines q \<noteq> [] \<longrightarrow> started q ! (?len - 1)"
    using tracksD[OF tr] by blast+
  from w have ls: "length (started q) = ?len" and lf: "length (finished q) = ?len"
    by (simp_all add: window_ok_def)
  have ci: "cur q \<le> i" using low sub nb by (meson in_mono not_le_imp_less)
  have inF: "i \<notin> dom F" using sub nb by blast
  have idx: "cur q + ?d = i" using ci by simp
  have a: "\<forall>j\<in>insert i B. j < cur (began i t q) + length (lines (began i t q))"
    using hi ci by auto
  have b: "\<forall>k<length (lines (began i t q)).
        (started (began i t q) ! k \<longleftrightarrow> cur (began i t q) + k \<in> insert i B) \<and>
        (finished (began i t q) ! k \<longleftrightarrow> cur (began i t q) + k \<in> dom F) \<and>
        (finished (began i t q) ! k \<longrightarrow> F (cur (began i t q) + k) = Some (lines (began i t q) ! k))"
  proof (intro allI impI)
    fix k assume k: "k < length (lines (began i t q))"
    show "(started (began i t q) ! k \<longleftrightarrow> cur (began i t q) + k \<in> insert i B) \<and>
        (finished (began i t q) ! k \<longleftrightarrow> cur (began i t q) + k \<in> dom F) \<and>
        (finished (began i t q) ! k \<longrightarrow> F (cur (began i t q) + k) = Some (lines (began i t q) ! k))"
    proof (cases "k = ?d")
      case True
      then show ?thesis using k idx inF ls lf by (simp add: nth_list_update)
    next
      case False
      then have ne: "cur q + k \<noteq> i" using ci by auto
      show ?thesis
      proof (cases "k < ?len")
        case True
        then show ?thesis using False ne slots ls lf by (simp add: nth_list_update nth_append)
      next
        case False
        then have "cur q + k \<notin> B" using hi by auto
        then have "cur q + k \<notin> dom F" using sub by blast
        then show ?thesis using False \<open>k \<noteq> ?d\<close> ne \<open>cur q + k \<notin> B\<close> k ls lf
          by (simp add: nth_list_update nth_append)
      qed
    qed
  qed
  have c: "lines (began i t q) \<noteq> [] \<longrightarrow> started (began i t q) ! (length (lines (began i t q)) - 1)"
  proof (cases "?d < ?len")
    case True
    then show ?thesis using lst ls by (auto simp: nth_list_update)
  next
    case False
    then show ?thesis using ls by (simp add: nth_list_update)
  qed
  have d: "dom F \<subseteq> insert i B" using sub by blast
  show ?thesis
    unfolding tracks_def
    using tracksD(1,3,4,5,6,8,12)[OF tr] began_window_ok[OF w] a b c d
    by (intro conjI) simp_all
qed

lemma flushed_fields [simp]:
  "cur (flushed n q) = cur q + n" "reorder (flushed n q) = reorder q" "nthreads (flushed n q) = nthreads q"
  "perThreadCounter (flushed n q) = perThreadCounter q"
  "perThreadBufSize (flushed n q) = perThreadBufSize q"
  "lines (flushed n q) = drop n (lines q)"
  "started (flushed n q) = drop n (started q)"
  "finished (flushed n q) = drop n (finished q)"
  "(ofhs (flushed n q) = []) = (ofhs q = [])"
  "ofhs q \<noteq> [] \<Longrightarrow> contents (ofhs (flushed n q) ! 0) = contents (ofhs q ! 0) @ concat (take n (lines q))"
  "ofhs q \<noteq> [] \<Longrightarrow> room (ofhs (flushed n q) ! 0) = room (ofhs q ! 0)"
  by (simp_all add: flushed_def emit_def)

lemma window_ok_flushed: "window_ok q \<Longrightarrow> n \<le> length (lines q) \<Longrightarrow> window_ok (flushed n q)"
  by (simp add: window_ok_def)

lemma nready_flushed: "nready (flushed (nready q) q) = 0"
proof -
  have "drop (nready q) (finished q) = dropWhile (\<lambda>b. b) (finished q)"
    by (simp add: nready_def dropWhile_eq_drop)
  moreover have "takeWhile (\<lambda>b. b) (dropWhile (\<lambda>b. b) (finished q)) = []"
    using hd_dropWhile[of "\<lambda>b. b" "finished q"] by (auto simp: takeWhile_eq_Nil_iff)
  ultimately show ?thesis
    by (simp add: nready_def)
qed

lemma tracks_flushed:
  assumes tr: "tracks nt B F q"
  shows "tracks nt B F (flushed (nready q) q)"
proof -
  let ?n = "nready q" and ?len = "length (lines q)"
  note d = tracksD[OF tr]
  from d(2) have ls: "length (started q) = ?len" and lf: "length (finished q) = ?len"
    by (simp_all add: window_ok_def)
  have nle: "?n \<le> ?len" using nready_le[of q] lf by simp
  have fin: "\<forall>k<?n. F (cur q + k) = Some (lines q ! k)"
    using nready_finished d(10) nle by (meson less_le_trans)
  have a: "\<forall>i<cur q + ?n. i \<in> dom F"
  proof (intro allI impI)
    fix i assume i: "i < cur q + ?n"
    show "i \<in> dom F"
    proof (cases "i < cur q")
      case True then show ?thesis using d(8) by blast
    next
      case False
      then have "i - cur q < ?n" "cur q + (i - cur q) = i" using i by auto
      then show ?thesis using fin by (metis domI)
    qed
  qed
  have b: "\<forall>i\<in>B. i < cur q + ?n + length (drop ?n (lines q))"
    using d(9) nle by simp
  have c: "\<forall>k<length (drop ?n (lines q)).
        (drop ?n (started q) ! k \<longleftrightarrow> cur q + ?n + k \<in> B) \<and>
        (drop ?n (finished q) ! k \<longleftrightarrow> cur q + ?n + k \<in> dom F) \<and>
        (drop ?n (finished q) ! k \<longrightarrow> F (cur q + ?n + k) = Some (drop ?n (lines q) ! k))"
  proof (intro allI impI)
    fix k assume "k < length (drop ?n (lines q))"
    then have k: "?n + k < ?len" by simp
    then show "(drop ?n (started q) ! k \<longleftrightarrow> cur q + ?n + k \<in> B) \<and>
        (drop ?n (finished q) ! k \<longleftrightarrow> cur q + ?n + k \<in> dom F) \<and>
        (drop ?n (finished q) ! k \<longrightarrow> F (cur q + ?n + k) = Some (drop ?n (lines q) ! k))"
      using d(10)[rule_format, OF k] nle ls lf by (simp add: add.assoc)
  qed
  have e: "drop ?n (lines q) \<noteq> [] \<longrightarrow> drop ?n (started q) ! (length (drop ?n (lines q)) - 1)"
    using d(11) nle ls by auto
  have m: "map (the_text F) [cur q..<cur q + ?n] = take ?n (lines q)"
    using fin nle by (simp add: list_eq_iff_nth_eq the_text_def)
  have "[0..<cur q + ?n] = [0..<cur q] @ [cur q..<cur q + ?n]"
    by (metis upt_add_eq_append zero_le)
  then have f: "contents (ofhs q ! 0) @ concat (take ?n (lines q)) = concat (map (the_text F) [0..<cur q + ?n])"
    using d(12) m by simp
  show ?thesis
    unfolding tracks_def
    using d(1,3,4,5,6,7) window_ok_flushed[OF d(2) nle] a b c e f
    by (intro conjI) simp_all
qed

lemma tracks_flushImpl:
  assumes tr: "tracks nt B F q"
  shows "\<exists>q'. flushImpl T force q = Inr q' \<and> tracks nt B F q' \<and> (force \<longrightarrow> nready q' = 0)"
proof -
  note d = tracksD[OF tr]
  have "flushImpl T force q = Inr (if force \<or> T \<le> nready q then flushed (nready q) q else q)"
    using flushImpl_ok[OF d(1,2,4,5)] .
  then show ?thesis using tr tracks_flushed[OF tr] nready_flushed[of q] by auto
qed

lemma tracks_finish:
  assumes tr: "tracks nt B F q" and t: "t < nt" and iB: "i \<in> B" and iF: "i \<notin> dom F"
  shows "\<exists>q'. finishReadImpl T r i t q = Inr q' \<and> tracks nt B (F(i \<mapsto> r)) q'"
proof -
  let ?d = "i - cur q" and ?len = "length (lines q)"
  note d = tracksD[OF tr]
  from d(2) have ls: "length (started q) = ?len" and lf: "length (finished q) = ?len"
    by (simp_all add: window_ok_def)
  have ci: "cur q \<le> i" using d(8) iF by (meson not_le_imp_less)
  have idx: "cur q + ?d = i" using ci by simp
  have dl: "?d < ?len" using d(9) iB ci by fastforce
  have st: "started q ! ?d" and nf: "\<not> finished q ! ?d"
    using d(10)[rule_format, OF dl] idx iB iF by simp_all
  let ?q = "q\<lparr>lines := (lines q)[?d := r],
              perThreadFinished := (perThreadFinished q)[t := perThreadFinished q ! t + 1],
              finished := (finished q)[?d := True]\<rparr>"
  have unf: "finishReadImpl T r i t q = flushImpl T False ?q"
    using d(1,3) t ci ls lf dl st nf by (simp add: finishReadImpl_def flush_def)
  have w: "window_ok ?q"
    using d(2) st dl by (auto simp: window_ok_def nth_list_update split: if_splits)
  have c: "\<forall>k<length (lines ?q).
        (started ?q ! k \<longleftrightarrow> cur ?q + k \<in> B) \<and>
        (finished ?q ! k \<longleftrightarrow> cur ?q + k \<in> dom (F(i \<mapsto> r))) \<and>
        (finished ?q ! k \<longrightarrow> (F(i \<mapsto> r)) (cur ?q + k) = Some (lines ?q ! k))"
  proof (intro allI impI)
    fix k assume "k < length (lines ?q)"
    then have k: "k < ?len" by simp
    show "(started ?q ! k \<longleftrightarrow> cur ?q + k \<in> B) \<and>
        (finished ?q ! k \<longleftrightarrow> cur ?q + k \<in> dom (F(i \<mapsto> r))) \<and>
        (finished ?q ! k \<longrightarrow> (F(i \<mapsto> r)) (cur ?q + k) = Some (lines ?q ! k))"
    proof (cases "k = ?d")
      case True
      then show ?thesis using idx dl ls lf st iB by simp
    next
      case False
      then have "cur q + k \<noteq> i" using ci by auto
      then show ?thesis using False d(10)[rule_format, OF k] k ls lf by (simp add: nth_list_update)
    qed
  qed
  have m: "map (the_text (F(i \<mapsto> r))) [0..<cur q] = map (the_text F) [0..<cur q]"
    using ci iF d(8) by (auto simp: the_text_def)
  have out: "contents (ofhs ?q ! 0) = concat (map (the_text (F(i \<mapsto> r))) [0..<cur ?q])"
    using d(12) arg_cong[OF m, of concat] by simp
  have e: "lines ?q \<noteq> [] \<longrightarrow> started ?q ! (length (lines ?q) - 1)"
    using d(11) by auto
  have s: "dom (F(i \<mapsto> r)) \<subseteq> B" using d(7) iB by auto
  have l: "\<forall>j<cur ?q. j \<in> dom (F(i \<mapsto> r))" using d(8) by auto
  have h: "\<forall>j\<in>B. j < cur ?q + length (lines ?q)" using d(9) by simp
  have "tracks nt B (F(i \<mapsto> r)) ?q"
    unfolding tracks_def
    using d(1,3,4,5,6) w c out e s l h
    by (intro conjI) simp_all
  from tracks_flushImpl[OF this, of T False] unf show ?thesis by auto
qed

lemma tracks_run:
  "trace_ok nt B (dom F) ops \<Longrightarrow> tracks nt B F q \<Longrightarrow>
   \<exists>q'. run T ops q = Inr q' \<and> tracks nt (begun B ops) (texts F ops) q'"
proof (induction ops arbitrary: B F q)
  case Nil
  then show ?case by simp
next
  case (Cons x ops)
  note d = tracksD[OF Cons.prems(2)]
  show ?case
  proof (cases x)
    case (BeginRead i t)
    with Cons.prems have t: "t < nt" and nb: "i \<notin> B" and rest: "trace_ok nt (insert i B) (dom F) ops"
      by simp_all
    have ci: "cur q \<le> i" using d(7,8) nb by (meson in_mono not_le_imp_less)
    have "beginReadImpl i t q = Inr (began i t q)"
      using d(1,2,3,6) t ci by (intro beginReadImpl_ok) (simp_all add: window_ok_def)
    then have s: "step T x q = Inr (began i t q)" using BeginRead by (simp add: beginRead_def)
    from Cons.IH[OF rest tracks_began[OF Cons.prems(2) nb]] s BeginRead show ?thesis by simp
  next
    case (FinishRead r i t)
    with Cons.prems have t: "t < nt" and iB: "i \<in> B" and iF: "i \<notin> dom F"
      and rest: "trace_ok nt B (dom (F(i \<mapsto> r))) ops"
      by simp_all
    from tracks_finish[OF Cons.prems(2) t iB iF, of T r] obtain q' where
      q': "finishReadImpl T r i t q = Inr q'" "tracks nt B (F(i \<mapsto> r)) q'" by blast
    have s: "step T x q = Inr q'" using FinishRead q'(1) t d(3) by (simp add: finishRead_def)
    from Cons.IH[OF rest q'(2)] obtain q'' where
      "run T ops q' = Inr q''" "tracks nt (begun B ops) (texts (F(i \<mapsto> r)) ops) q''" by blast
    with s FinishRead show ?thesis by simp
  next
    case (Flush force)
    with Cons.prems have rest: "trace_ok nt B (dom F) ops" by simp
    from tracks_flushImpl[OF Cons.prems(2), of T force] obtain q' where
      q': "flushImpl T force q = Inr q'" "tracks nt B F q'" by blast
    have s: "step T x q = Inr q'" using Flush q'(1) by (simp add: flush_def)
    from Cons.IH[OF rest q'(2)] s Flush show ?thesis by simp
  qed
qed

lemma fresh_tracks: "fresh q \<Longrightarrow> tracks (nthreads q) {} Map.empty q"
  by (simp add: fresh_def tracks_def window_ok_def)

text \<open>
  Claim C1. With reordering, from a new queue: whenever the calls begin and finish each of
  the ids \<open>0..N-1\<close> once, in any order (unforced or forced flushes may come in
  between), the calls all succeed, and after a forced flush stream 0 holds the \<open>N\<close>
  texts in increasing id order, each once, and the window is empty at \<open>cur = N\<close>.
\<close>

theorem ordered_output:
  assumes "fresh q" and "trace_ok (nthreads q) {} {} ops"
    and "begun {} ops = {0..<N}" and "dom (texts Map.empty ops) = {0..<N}"
  shows "\<exists>q1 q2. run T ops q = Inr q1 \<and> flush T True True q1 = Inr q2 \<and>
           contents (ofhs q2 ! 0) = concat (map (text_of ops) [0..<N]) \<and>
           cur q2 = N \<and> lines q2 = []"
proof -
  let ?F = "texts Map.empty ops"
  from tracks_run[of "nthreads q" "{}" Map.empty ops q T] assms(1,2) fresh_tracks
  obtain q1 where q1: "run T ops q = Inr q1" "tracks (nthreads q) {0..<N} ?F q1"
    using assms(3) by auto
  from tracks_flushImpl[OF q1(2), of T True] obtain q2 where
    q2: "flushImpl T True q1 = Inr q2" "tracks (nthreads q) {0..<N} ?F q2" "nready q2 = 0"
    by blast
  note d = tracksD[OF q2(2)]
  from d(2) have lf: "length (finished q2) = length (lines q2)" by (simp add: window_ok_def)
  have empty: "lines q2 = []"
  proof (rule ccontr)
    assume ne: "lines q2 \<noteq> []"
    then have pos: "0 < length (lines q2)" by simp
    then have l: "length (lines q2) - 1 < length (lines q2)" by simp
    from d(11) ne have "started q2 ! (length (lines q2) - 1)" by simp
    with d(10)[rule_format, OF l] have "cur q2 + (length (lines q2) - 1) < N" by simp
    then have "cur q2 + 0 \<in> dom ?F" using assms(4) by simp
    with d(10)[rule_format, OF pos] have f0: "finished q2 ! 0" by simp
    have "finished q2 \<noteq> []" using ne lf by auto
    then have "nready q2 \<noteq> 0" using f0
      by (cases "finished q2") (simp_all add: nready_def)
    with q2(3) show False by simp
  qed
  have "N \<le> cur q2"
  proof (rule ccontr)
    assume "\<not> N \<le> cur q2"
    then have "cur q2 \<in> {0..<N}" by simp
    with d(9) empty show False by fastforce
  qed
  moreover have "cur q2 \<le> N"
  proof (rule ccontr)
    assume "\<not> cur q2 \<le> N"
    then have "N < cur q2" by simp
    with d(8) have "N \<in> dom ?F" by blast
    with assms(4) show False by simp
  qed
  ultimately have c: "cur q2 = N" by simp
  have "contents (ofhs q2 ! 0) = concat (map (text_of ops) [0..<N])"
    using d(12) c by (simp add: text_of_def)
  with q1(1) q2(1) c empty show ?thesis by (simp add: flush_def)
qed

theorem ordered_output_witness:
  "fresh queue0 \<and> trace_ok (nthreads queue0) {} {} five_out_of_order \<and>
   begun {} five_out_of_order = {0..<5} \<and> dom (texts Map.empty five_out_of_order) = {0..<5} \<and>
   (\<exists>q1 q2. run 2 five_out_of_order queue0 = Inr q1 \<and> flush 2 True True q1 = Inr q2 \<and>
      contents (ofhs q2 ! 0) = ''A\<newline>B\<newline>C\<newline>D\<newline>E\<newline>'' \<and> cur q2 = 5 \<and> lines q2 = [])"
proof -
  have h1: "fresh queue0"
    by (simp add: fresh_def queue0_def less_Suc_eq numeral_2_eq_2)
  have h2: "trace_ok (nthreads queue0) {} {} five_out_of_order"
    by (simp add: queue0_def five_out_of_order_def)
  have h3: "begun {} five_out_of_order = {0..<5}"
    by (auto simp: five_out_of_order_def)
  have h4: "dom (texts Map.empty five_out_of_order) = {0..<5}"
    by (auto simp: five_out_of_order_def)
  have t: "concat (map (text_of five_out_of_order) [0..<5]) = ''A\<newline>B\<newline>C\<newline>D\<newline>E\<newline>''"
    by (simp add: text_of_def the_text_def five_out_of_order_def upt_rec)
  from ordered_output[OF h1 h2 h3 h4, of 2] t h1 h2 h3 h4 show ?thesis by simp
qed


lemma count_finished_Inr:
  "count_finished n q = Inr m \<Longrightarrow> n \<le> length (finished q) \<Longrightarrow>
   m = n + length (takeWhile (\<lambda>b. b) (drop n (finished q)))"
proof (induction n q rule: count_finished.induct)
  case (1 n q)
  show ?case
  proof (cases "n < length (finished q) \<and> finished q ! n")
    case False
    then have "count_finished n q = Inr n" using count_finished.simps[of n q] by auto
    moreover have "takeWhile (\<lambda>b. b) (drop n (finished q)) = []"
    proof (cases "n < length (finished q)")
      case True
      with False show ?thesis by (simp add: takeWhile_eq_Nil_iff hd_drop_conv_nth)
    next
      case False
      then show ?thesis by simp
    qed
    ultimately show ?thesis using "1.prems" by simp
  next
    case True
    have st: "n < length (started q) \<and> started q ! n"
      using True "1.prems"(1) count_finished.simps[of n q] by (auto split: if_splits)
    have unf: "count_finished n q = count_finished (n + 1) q"
      using True st count_finished.simps[of n q] by simp
    have d: "drop n (finished q) = True # drop (n + 1) (finished q)"
      using True Cons_nth_drop_Suc[of n "finished q"] by simp
    show ?thesis using unf "1.IH" True st "1.prems" d by simp
  qed
qed

lemma count_finished_nready: "count_finished 0 q = Inr m \<Longrightarrow> m = nready q"
  using count_finished_Inr[of 0 q m] by (simp add: nready_def)

lemma count_finished_Inl: "count_finished n q = Inl e \<Longrightarrow> e = AssertionFailed"
proof (induction n q rule: count_finished.induct)
  case (1 n q)
  then show ?case using count_finished.simps[of n q] by (auto split: if_splits)
qed

lemma writeString_Inr: "writeString s i q = Inr q' \<Longrightarrow> \<exists>fs. q' = q\<lparr>ofhs := fs\<rparr>"
  by (auto simp: writeString_def Let_def split: if_splits prod.splits)

lemma write_finished_Inr: "write_finished i n q = Inr q' \<Longrightarrow> \<exists>fs. q' = q\<lparr>ofhs := fs\<rparr>"
proof (induction i n q rule: write_finished.induct)
  case (1 i n q)
  show ?case
  proof (cases "i < n")
    case False
    then have "q' = q" using "1.prems" write_finished.simps[of i n q] by simp
    then have "q' = q\<lparr>ofhs := ofhs q\<rparr>" by simp
    then show ?thesis by blast
  next
    case True
    from True "1.prems" write_finished.simps[of i n q]
    have ok: "i < length (started q) \<and> started q ! i" "i < length (finished q) \<and> finished q ! i" "i < length (lines q)"
      by (auto split: if_splits)
    from True "1.prems" ok write_finished.simps[of i n q]
    obtain q1 where q1: "writeString (lines q ! i) 0 q = Inr q1" "write_finished (i + 1) n q1 = Inr q'"
      by (auto split: sum.splits)
    from writeString_Inr[OF q1(1)] obtain fs where fs: "q1 = q\<lparr>ofhs := fs\<rparr>" by blast
    have "\<exists>fs'. q' = q1\<lparr>ofhs := fs'\<rparr>"
      using "1.IH"[OF True _ _ _ q1(1) q1(2)] ok by simp
    then show ?thesis using fs by auto
  qed
qed

lemma flushImpl_Inr:
  assumes "reorder q" "flushImpl T force q = Inr q'"
  shows "(\<not> force \<and> nready q < T \<and> q' = q) \<or>
         ((force \<or> T \<le> nready q) \<and>
          (\<exists>fs. q' = q\<lparr>ofhs := fs, lines := drop (nready q) (lines q),
                    started := drop (nready q) (started q),
                    finished := drop (nready q) (finished q),
                    cur := cur q + nready q,
                    perThreadFlushed := (perThreadFlushed q)[0 := perThreadFlushed q ! 0 + nready q]\<rparr>))"
proof -
  from assms obtain m where m: "count_finished 0 q = Inr m"
    by (auto simp: flushImpl_def split: sum.splits)
  then have mn: "m = nready q" by (rule count_finished_nready)
  show ?thesis
  proof (cases "force \<or> T \<le> nready q")
    case False
    then show ?thesis using assms m mn by (auto simp: flushImpl_def)
  next
    case True
    with assms m mn obtain q1 where q1: "write_finished 0 (nready q) q = Inr q1"
      by (auto simp: flushImpl_def split: sum.splits)
    from write_finished_Inr[OF q1] obtain fs where fs: "q1 = q\<lparr>ofhs := fs\<rparr>" by blast
    have "q' = q1\<lparr>lines := drop (nready q) (lines q1), started := drop (nready q) (started q1),
                 finished := drop (nready q) (finished q1), cur := cur q1 + nready q,
                 perThreadFlushed := (perThreadFlushed q1)[0 := perThreadFlushed q1 ! 0 + nready q]\<rparr>"
      using True assms m mn q1 by (auto simp: flushImpl_def)
    then show ?thesis using True fs by auto
  qed
qed

lemma flushImpl_Inl_unforced:
  assumes "reorder q" "nready q < T" "flushImpl T False q = Inl e"
  shows "e = AssertionFailed"
proof (cases "count_finished 0 q")
  case (Inl e')
  then show ?thesis using assms count_finished_Inl[OF Inl] by (simp add: flushImpl_def)
next
  case (Inr m)
  then show ?thesis using assms count_finished_nready[OF Inr] by (simp add: flushImpl_def)
qed

text \<open>
  Claim C4. With reordering and threshold \<open>T\<close>: when fewer than \<open>T\<close> slots at
  the head of the window are finished, an unforced flush either returns the queue as it
  was (nothing written, \<open>cur\<close>, the window and the flushed counters unchanged) or
  fails an assertion; on a queue whose window is well formed it returns the queue as it
  was.
\<close>

theorem no_premature_flush:
  assumes "reorder q" and "nready q < T"
  shows "(flush T False getLock q = Inr q \<or> flush T False getLock q = Inl AssertionFailed) \<and>
         (window_ok q \<longrightarrow> flush T False getLock q = Inr q)"
proof -
  have a: "flushImpl T False q = Inr q \<or> flushImpl T False q = Inl AssertionFailed"
  proof (cases "flushImpl T False q")
    case (Inl e)
    then show ?thesis using flushImpl_Inl_unforced[OF assms Inl] by simp
  next
    case (Inr q')
    then show ?thesis using flushImpl_Inr[OF assms(1) Inr] assms(2) by auto
  qed
  have b: "window_ok q \<longrightarrow> flushImpl T False q = Inr q"
  proof
    assume w: "window_ok q"
    then have "count_finished 0 q = Inr (nready q)"
      using count_finished_ok[of q 0] by (simp add: window_ok_def nready_def)
    then show "flushImpl T False q = Inr q" using assms by (simp add: flushImpl_def)
  qed
  from a b show ?thesis by (simp add: flush_def)
qed

theorem no_premature_flush_witness:
  "reorder queue_one_ready \<and> nready queue_one_ready < 2 \<and> window_ok queue_one_ready \<and>
   flush 2 False True queue_one_ready = Inr queue_one_ready"
proof -
  have h1: "reorder queue_one_ready" by (simp add: queue_one_ready_def queue0_def)
  have h2: "nready queue_one_ready < 2" by (simp add: queue_one_ready_def queue0_def nready_def)
  have h3: "window_ok queue_one_ready"
    by (simp add: queue_one_ready_def queue0_def window_ok_def less_Suc_eq numeral_2_eq_2)
  from no_premature_flush[OF h1 h2, of True] h1 h2 h3 show ?thesis by simp
qed

lemma finishReadImpl_Inr:
  assumes "reorder q" "finishReadImpl T r rdid t q = Inr q'"
  shows "t < nthreads q \<and> cur q \<le> rdid \<and> length (finished q) = length (lines q) \<and>
         length (started q) = length (lines q) \<and> rdid - cur q < length (lines q) \<and>
         started q ! (rdid - cur q) \<and> \<not> finished q ! (rdid - cur q) \<and>
         flushImpl T False
           (q\<lparr>lines := (lines q)[rdid - cur q := r],
              perThreadFinished := (perThreadFinished q)[t := perThreadFinished q ! t + 1],
              finished := (finished q)[rdid - cur q := True]\<rparr>) = Inr q'"
  using assms by (auto simp: finishReadImpl_def flush_def split: if_splits)


lemma window_ok_drop:
  assumes "window_ok q" "n \<le> length (lines q)"
  shows "window_ok (q\<lparr>ofhs := fs, lines := drop n (lines q), started := drop n (started q),
                      finished := drop n (finished q), cur := c, perThreadFlushed := pf\<rparr>)"
  using assms by (simp add: window_ok_def)

lemma flushImpl_shape:
  assumes "reorder q" "flushImpl T force q = Inr q'" "length (finished q) = length (lines q)"
  shows "\<exists>n\<le>length (lines q). (\<forall>i<n. finished q ! i) \<and>
           lines q' = drop n (lines q) \<and> started q' = drop n (started q) \<and>
           finished q' = drop n (finished q) \<and> cur q' = cur q + n \<and> reorder q' \<and>
           (n < length (finished q) \<and> finished q ! n \<longrightarrow> n = 0 \<and> \<not> force \<and> nready q < T)"
proof -
  from flushImpl_Inr[OF assms(1,2)] show ?thesis
  proof
    assume "\<not> force \<and> nready q < T \<and> q' = q"
    then show ?thesis using assms(1) by (intro exI[of _ 0]) simp
  next
    assume a: "(force \<or> T \<le> nready q) \<and>
          (\<exists>fs. q' = q\<lparr>ofhs := fs, lines := drop (nready q) (lines q),
                    started := drop (nready q) (started q),
                    finished := drop (nready q) (finished q),
                    cur := cur q + nready q,
                    perThreadFlushed := (perThreadFlushed q)[0 := perThreadFlushed q ! 0 + nready q]\<rparr>)"
    have "nready q \<le> length (lines q)" using nready_le[of q] assms(3) by simp
    moreover have "\<forall>i<nready q. finished q ! i" using nready_finished by blast
    moreover have "\<not> (nready q < length (finished q) \<and> finished q ! nready q)"
      using nready_stop by blast
    ultimately show ?thesis using a assms(1) by (intro exI[of _ "nready q"]) auto
  qed
qed

lemma pending_flushImpl:
  assumes p: "pending rdid s q" and f: "flushImpl T force q = Inr q'"
  shows "pending rdid s q'"
proof -
  let ?d = "rdid - cur q"
  from p have r: "reorder q" and c: "cur q \<le> rdid" and l: "length (lines q) = length (finished q)"
    and d: "?d < length (finished q)" and nf: "\<not> finished q ! ?d" and s: "lines q ! ?d = s"
    by (simp_all add: pending_def)
  from flushImpl_shape[OF r f] l obtain n where n: "n \<le> length (lines q)" "\<forall>i<n. finished q ! i"
    "lines q' = drop n (lines q)" "finished q' = drop n (finished q)" "cur q' = cur q + n" "reorder q'"
    by auto
  have nd: "n \<le> ?d" using n(2) nf by (meson not_le_imp_less)
  then have e: "rdid - cur q' = ?d - n" "n + (?d - n) = ?d" using n(5) c by simp_all
  have c': "cur q' \<le> rdid" using nd c n(5) by linarith
  have "?d - n < length (finished q) - n" using d nd by linarith
  then have d': "rdid - cur q' < length (finished q')" using e(1) n(4) by simp
  have nl: "n \<le> length (finished q)" using n(1) l by simp
  have nf': "\<not> finished q' ! (rdid - cur q')" using nf e n(4) nl by simp
  have s': "lines q' ! (rdid - cur q') = s" using s e n(3) n(1) by simp
  have l': "length (lines q') = length (finished q')" using n(3,4) l by simp
  show ?thesis
    unfolding pending_def using n(6) c' l' d' nf' s' by simp
qed

lemma pending_began:
  assumes p: "pending rdid s q"
  shows "pending rdid s (began j t q)"
proof -
  from p have d: "rdid - cur q < length (finished q)" "length (lines q) = length (finished q)"
    by (simp_all add: pending_def)
  show ?thesis
    using p d by (auto simp: pending_def nth_list_update nth_append)
qed

lemma pending_step:
  assumes p: "pending rdid s q" and x: "no_finish rdid [x]" and st: "step T x q = Inr q'"
  shows "pending rdid s q'"
proof (cases x)
  case (BeginRead j t)
  from p have r: "reorder q" by (simp add: pending_def)
  from st BeginRead have "beginReadImpl j t q = Inr q'" by (simp add: beginRead_def)
  from beginReadImpl_Inr[OF r this] pending_began[OF p] show ?thesis by simp
next
  case (FinishRead r j t)
  from p have ro: "reorder q" and c: "cur q \<le> rdid" by (simp_all add: pending_def)
  from x FinishRead have ne: "rdid \<noteq> j" by simp
  from st FinishRead have "finishReadImpl T r j t q = Inr q'"
    by (auto simp: finishRead_def split: if_splits)
  note fi = finishReadImpl_Inr[OF ro this]
  let ?q = "q\<lparr>lines := (lines q)[j - cur q := r],
              perThreadFinished := (perThreadFinished q)[t := perThreadFinished q ! t + 1],
              finished := (finished q)[j - cur q := True]\<rparr>"
  have "j - cur q \<noteq> rdid - cur q" using ne c fi by auto
  then have "pending rdid s ?q" using p by (simp add: pending_def)
  from pending_flushImpl[OF this] fi show ?thesis by blast
next
  case (Flush force)
  with st have "flushImpl T force q = Inr q'" by (simp add: flush_def)
  from pending_flushImpl[OF p this] show ?thesis .
qed

lemma pending_run:
  "pending rdid s q \<Longrightarrow> no_finish rdid ops \<Longrightarrow> run T ops q = Inr q' \<Longrightarrow> pending rdid s q'"
proof (induction ops arbitrary: q)
  case Nil
  then show ?case by simp
next
  case (Cons x ops)
  from Cons.prems(3) obtain q1 where q1: "step T x q = Inr q1" "run T ops q1 = Inr q'"
    by (auto split: sum.splits)
  from Cons.prems(2) have nx: "no_finish rdid [x]" and nr: "no_finish rdid ops"
    by (cases x; simp)+
  from Cons.IH[OF pending_step[OF Cons.prems(1) nx q1(1)] nr q1(2)] show ?case .
qed

lemma q1_reorder: "reorder queue_one_ready"
  by (simp add: queue_one_ready_def queue0_def)









text \<open>
  Claim C10. With reordering, a successful \<^verbatim>\<open>beginRead\<close> on an id leaves that id's slot
  unfinished, whatever it was before. From then on, through any calls that do not finish
  that id again (flushes, forced or not, and calls on other ids), the id stays at or above
  \<open>cur\<close>, its slot stays unfinished, and the text the slot held is still in the
  window: it is not written.
\<close>

theorem begin_discards_finished:
  assumes "reorder q" and "beginRead rdid t q = Inr q'"
  shows "rdid - cur q' < length (finished q') \<and> \<not> finished q' ! (rdid - cur q') \<and>
         (\<forall>ops q''. no_finish rdid ops \<longrightarrow> run T ops q' = Inr q'' \<longrightarrow>
            cur q'' \<le> rdid \<and> rdid - cur q'' < length (finished q'') \<and>
            \<not> finished q'' ! (rdid - cur q'') \<and>
            (rdid - cur q < length (lines q) \<longrightarrow>
               lines q'' ! (rdid - cur q'') = lines q ! (rdid - cur q)))"
proof -
  from assms(2) have "beginReadImpl rdid t q = Inr q'" by (simp add: beginRead_def)
  note b = beginReadImpl_Inr[OF assms(1) this]
  let ?d = "rdid - cur q"
  have len: "?d < length (finished q')" using b by auto
  have nf: "\<not> finished q' ! ?d" using b by auto
  have p: "pending rdid (lines q' ! ?d) q'"
    using b assms(1) len nf by (simp add: pending_def)
  have old: "?d < length (lines q) \<longrightarrow> lines q' ! ?d = lines q ! ?d"
    using b by (simp add: nth_append)
  have "\<forall>ops q''. no_finish rdid ops \<longrightarrow> run T ops q' = Inr q'' \<longrightarrow>
            cur q'' \<le> rdid \<and> rdid - cur q'' < length (finished q'') \<and>
            \<not> finished q'' ! (rdid - cur q'') \<and>
            (?d < length (lines q) \<longrightarrow> lines q'' ! (rdid - cur q'') = lines q ! ?d)"
  proof (intro allI impI)
    fix ops q'' assume "no_finish rdid ops" "run T ops q' = Inr q''"
    from pending_run[OF p this] old
    show "cur q'' \<le> rdid \<and> rdid - cur q'' < length (finished q'') \<and>
            \<not> finished q'' ! (rdid - cur q'') \<and>
            (?d < length (lines q) \<longrightarrow> lines q'' ! (rdid - cur q'') = lines q ! ?d)"
      by (simp add: pending_def)
  qed
  with len nf b show ?thesis by simp
qed

theorem begin_discards_finished_witness:
  "reorder queue_one_ready \<and> finished queue_one_ready ! 0 \<and>
   (\<exists>q'. beginRead 0 1 queue_one_ready = Inr q' \<and> \<not> finished q' ! 0 \<and>
      no_finish 0 [Flush True, FinishRead ''B\<newline>'' 1 1, Flush True] \<and>
      (\<exists>q''. run 8 [Flush True, FinishRead ''B\<newline>'' 1 1, Flush True] q' = Inr q'' \<and>
         cur q'' = 0 \<and> \<not> finished q'' ! 0 \<and> lines q'' ! 0 = ''A\<newline>'' \<and>
         contents (ofhs q'' ! 0) = []))"
proof -
  let ?ops = "[Flush True, FinishRead ''B\<newline>'' 1 1, Flush True]"
  have b: "beginRead 0 1 queue_one_ready = Inr (began 0 1 queue_one_ready)"
    unfolding beginRead_def using beginReadImpl_ok[of queue_one_ready 1 0]
    by (simp add: queue_one_ready_def queue0_def)
  have nf: "no_finish 0 ?ops" by simp
  have "\<exists>q''. run 8 ?ops (began 0 1 queue_one_ready) = Inr q'' \<and> contents (ofhs q'' ! 0) = []"
    by (simp add: began_def finishRead_def finishReadImpl_def flush_def flushImpl_def
        count_finished.simps write_finished.simps queue_one_ready_def queue0_def)
  then obtain q'' where r: "run 8 ?ops (began 0 1 queue_one_ready) = Inr q''"
    "contents (ofhs q'' ! 0) = []" by blast
  note t = begin_discards_finished[OF q1_reorder b, of 8]
  note u = t[THEN conjunct2, THEN conjunct2, rule_format, OF nf r(1)]
  from u have "cur q'' = 0 \<and> \<not> finished q'' ! 0 \<and> lines q'' ! 0 = ''A\<newline>''"
    by (simp add: queue_one_ready_def queue0_def)
  moreover have "\<not> finished (began 0 1 queue_one_ready) ! 0"
    using begin_discards_finished[OF q1_reorder b, of 8] by simp
  moreover have "finished queue_one_ready ! 0" by (simp add: queue_one_ready_def queue0_def)
  ultimately show ?thesis using b nf r q1_reorder by blast
qed

section \<open>Properties of the input side\<close>

lemma solo_draw_progress_aux:
  fixes nb :: "('a, 'b) source_nextBatch"
  assumes "solo_draw nb s pt = Some y"
  shows "\<forall>res s1 pt1. y = Inr (res, s1, pt1) \<longrightarrow> fst res \<or> snd res \<noteq> 0"
proof (rule solo_draw.raw_induct[where P = "\<lambda>nb s pt y. \<forall>res s1 pt1. y = Inr (res, s1, pt1) \<longrightarrow> fst res \<or> snd res \<noteq> 0", OF _ assms])
  fix draw :: "('a, 'b) source_nextBatch \<Rightarrow> 'a \<Rightarrow> 'b \<Rightarrow> ((bool \<times> int) \<times> 'a \<times> 'b) outcome"
    and nb s pt y
  assume IH: "\<And>nb s pt y. draw nb s pt = Some y \<Longrightarrow>
                 \<forall>res s1 pt1. y = Inr (res, s1, pt1) \<longrightarrow> fst res \<or> snd res \<noteq> 0"
    and eq: "(case nb s pt True True of
                None \<Rightarrow> None
              | Some (Inl e) \<Rightarrow> Some (Inl e)
              | Some (Inr (res, s1, pt1)) \<Rightarrow>
                  if \<not> fst res \<and> snd res = 0 then draw nb s1 pt1
                  else Some (Inr (res, s1, pt1))) = Some y"
  show "\<forall>res s1 pt1. y = Inr (res, s1, pt1) \<longrightarrow> fst res \<or> snd res \<noteq> 0"
  proof (cases "nb s pt True True")
    case None
    with eq show ?thesis by simp
  next
    case (Some r)
    show ?thesis
    proof (cases r)
      case (Inl e)
      with Some eq show ?thesis by auto
    next
      case (Inr t)
      obtain res s1 pt1 where t: "t = (res, s1, pt1)" by (cases t) auto
      show ?thesis
      proof (cases "\<not> fst res \<and> snd res = 0")
        case True
        with Some Inr t eq have "draw nb s1 pt1 = Some y" by simp
        from IH[OF this] show ?thesis .
      next
        case False
        with Some Inr t eq have "y = Inr (res, s1, pt1)" by auto
        with False show ?thesis by auto
      qed
    qed
  qed
qed

lemma solo_draw_progress:
  "solo_draw nb s pt = Some (Inr (res, s1, pt1)) \<Longrightarrow> fst res \<or> snd res \<noteq> 0"
  using solo_draw_progress_aux[of nb s pt "Inr (res, s1, pt1)"] by simp

lemma solo_nextBatch_result_aux:
  fixes nb :: "('a, 'b) source_nextBatch"
  assumes "SoloPatternComposer_nextBatch ndebug nb pt c = Some y"
  shows "\<forall>res c' pt'. y = Inr (res, c', pt') \<longrightarrow> res = (True, 0) \<or> snd res \<noteq> 0"
proof (rule SoloPatternComposer_nextBatch.raw_induct[where P = "\<lambda>ndebug nb pt c y. \<forall>res c' pt'. y = Inr (res, c', pt') \<longrightarrow> res = (True, 0) \<or> snd res \<noteq> 0", OF _ assms])
  fix nextBatch :: "bool \<Rightarrow> ('a, 'b) source_nextBatch \<Rightarrow> 'b \<Rightarrow> 'a SoloPatternComposer
                    \<Rightarrow> ((bool \<times> int) \<times> 'a SoloPatternComposer \<times> 'b) outcome"
    and ndebug nb pt c y
  assume IH: "\<And>ndebug nb pt c y. nextBatch ndebug nb pt c = Some y \<Longrightarrow>
                 \<forall>res c' pt'. y = Inr (res, c', pt') \<longrightarrow> res = (True, 0) \<or> snd res \<noteq> 0"
    and eq: "(if solo_cur c < length (solo_src c) then
        (case solo_draw nb (solo_src c ! solo_cur c) pt of
           None \<Rightarrow> None
         | Some (Inl e) \<Rightarrow> Some (Inl e)
         | Some (Inr (res, s1, pt1)) \<Rightarrow>
             if snd res = 0 then
               nextBatch ndebug nb pt1
                 (if solo_cur c < solo_cur c + 1
                  then c\<lparr>solo_src := (solo_src c)[solo_cur c := s1], solo_cur := solo_cur c + 1\<rparr>
                  else c\<lparr>solo_src := (solo_src c)[solo_cur c := s1]\<rparr>)
             else Some (Inr (res, c\<lparr>solo_src := (solo_src c)[solo_cur c := s1]\<rparr>, pt1)))
      else if assert_fails ndebug (solo_cur c \<le> length (solo_src c)) then Some (Inl AssertionFailed)
      else Some (Inr ((True, 0), c, pt))) = Some y"
  show "\<forall>res c' pt'. y = Inr (res, c', pt') \<longrightarrow> res = (True, 0) \<or> snd res \<noteq> 0"
  proof (cases "solo_cur c < length (solo_src c)")
    case False
    with eq show ?thesis by (auto split: if_splits)
  next
    case True
    show ?thesis
    proof (cases "solo_draw nb (solo_src c ! solo_cur c) pt")
      case None
      with True eq show ?thesis by simp
    next
      case (Some r)
      show ?thesis
      proof (cases r)
        case (Inl e)
        with True Some eq show ?thesis by auto
      next
        case (Inr t)
        obtain res s1 pt1 where t: "t = (res, s1, pt1)" by (cases t) auto
        show ?thesis
        proof (cases "snd res = 0")
          case z: True
          with True Some Inr t eq have "nextBatch ndebug nb pt1
                 (c\<lparr>solo_src := (solo_src c)[solo_cur c := s1], solo_cur := solo_cur c + 1\<rparr>) = Some y"
            by simp
          from IH[OF this] show ?thesis .
        next
          case nz: False
          with True Some Inr t eq have "y = Inr (res, c\<lparr>solo_src := (solo_src c)[solo_cur c := s1]\<rparr>, pt1)"
            by auto
          with nz show ?thesis by auto
        qed
      qed
    qed
  qed
qed

lemma prepare_batch_early:
  assumes "prepare_batch ndebug ops nextBatch composer r = Some (Inr (Inl (res2, composer', r')))"
  shows "res2 = (False, True) \<and> exhausted ops (buf r) \<and>
         (\<exists>b1. nextBatch composer (buf r) = Some (Inr ((True, 0), composer', b1)))"
proof (cases "exhausted ops (buf r)")
  case False
  with assms show ?thesis by (simp add: prepare_batch_def Let_def split: if_splits)
next
  case True
  show ?thesis
  proof (cases "nextBatch composer (buf r)")
    case None
    with True assms show ?thesis by (simp add: prepare_batch_def)
  next
    case (Some x)
    show ?thesis
    proof (cases x)
      case (Inl e)
      with True Some assms show ?thesis by (simp add: prepare_batch_def)
    next
      case (Inr t)
      obtain res composer1 b1 where t: "t = (res, composer1, b1)" by (cases t) auto
      from True Some Inr t assms have "fst res \<and> snd res = 0 \<and> composer' = composer1 \<and> res2 = (False, True)"
        by (simp add: prepare_batch_def split: if_splits)
      then have "res = (True, 0) \<and> composer' = composer1 \<and> res2 = (False, True)"
        by (cases res) simp
      with True Some Inr t show ?thesis by simp
    qed
  qed
qed

lemma nextReadPair_no_more_work:
  assumes "PatternSourcePerThread_nextReadPair ndebug ops nextBatch composer r =
           Some (Inr ((False, True), composer', r'))"
  shows "exhausted ops (buf r) \<and>
         (\<exists>b1. nextBatch composer (buf r) = Some (Inr ((True, 0), composer', b1)))"
proof (cases "prepare_batch ndebug ops nextBatch composer r")
  case None
  with assms show ?thesis by (simp add: PatternSourcePerThread_nextReadPair_def)
next
  case (Some x)
  show ?thesis
  proof (cases x)
    case (Inl e)
    with Some assms show ?thesis by (simp add: PatternSourcePerThread_nextReadPair_def)
  next
    case (Inr u)
    show ?thesis
    proof (cases u)
      case (Inl early)
      with Some Inr assms have "early = ((False, True), composer', r')"
        by (simp add: PatternSourcePerThread_nextReadPair_def)
      with Some Inr Inl prepare_batch_early[of ndebug ops nextBatch composer r "(False, True)" composer' r']
      show ?thesis by simp
    next
      case (Inr v)
      obtain composer1 r1 where v: "v = (composer1, r1)" by (cases v) auto
      from Some \<open>x = Inr u\<close> Inr v assms have False
        by (simp add: PatternSourcePerThread_nextReadPair_def Let_def
            split: if_splits sum.splits prod.splits)
      then show ?thesis ..
    qed
  qed
qed

lemma prepare_batch_goes_on:
  assumes "prepare_batch ndebug ops nextBatch composer r = Some (Inr (Inr (composer1, r1)))"
  shows "if exhausted ops (buf r)
         then \<exists>res b1. nextBatch composer (buf r) = Some (Inr (res, composer1, b1)) \<and>
                       last_batch r1 = fst res \<and> \<not> (fst res \<and> snd res = 0)
         else composer1 = composer \<and> last_batch r1 = last_batch r"
proof (cases "exhausted ops (buf r)")
  case False
  with assms show ?thesis by (auto simp: prepare_batch_def Let_def split: if_splits)
next
  case True
  show ?thesis
  proof (cases "nextBatch composer (buf r)")
    case None
    with True assms show ?thesis by (simp add: prepare_batch_def)
  next
    case (Some x)
    show ?thesis
    proof (cases x)
      case (Inl e)
      with True Some assms show ?thesis by (simp add: prepare_batch_def)
    next
      case (Inr t)
      obtain res c1 b1 where t: "t = (res, c1, b1)" by (cases t) auto
      from True Some Inr t assms
      have "\<not> (fst res \<and> snd res = 0) \<and> composer1 = c1 \<and> last_batch r1 = fst res"
        by (auto simp: prepare_batch_def split: if_splits)
      with True Some Inr t show ?thesis by simp
    qed
  qed
qed

lemma nextReadPair_done:
  assumes "PatternSourcePerThread_nextReadPair ndebug ops nextBatch composer r =
           Some (Inr ((ok, True), composer', r'))"
  shows "if exhausted ops (buf r)
         then \<exists>n b1. nextBatch composer (buf r) = Some (Inr ((True, n), composer', b1))
         else last_batch r"
proof (cases "prepare_batch ndebug ops nextBatch composer r")
  case None
  with assms show ?thesis by (simp add: PatternSourcePerThread_nextReadPair_def)
next
  case (Some x)
  show ?thesis
  proof (cases x)
    case (Inl e)
    with Some assms show ?thesis by (simp add: PatternSourcePerThread_nextReadPair_def)
  next
    case (Inr u)
    show ?thesis
    proof (cases u)
      case (Inl early)
      with Some Inr assms have e: "early = ((ok, True), composer', r')"
        by (simp add: PatternSourcePerThread_nextReadPair_def)
      from Some Inr Inl e
      have "prepare_batch ndebug ops nextBatch composer r = Some (Inr (Inl ((ok, True), composer', r')))"
        by simp
      from prepare_batch_early[OF this] show ?thesis by auto
    next
      case (Inr v)
      obtain composer1 r1 where v: "v = (composer1, r1)" by (cases v) auto
      from Some \<open>x = Inr u\<close> Inr v
      have p: "prepare_batch ndebug ops nextBatch composer r = Some (Inr (Inr (composer1, r1)))"
        by simp
      from p assms have lb: "last_batch r1" "composer' = composer1"
        by (simp_all add: PatternSourcePerThread_nextReadPair_def Let_def
            split: if_splits sum.splits prod.splits)
      show ?thesis
      proof (cases "exhausted ops (buf r)")
        case True
        with prepare_batch_goes_on[OF p] obtain res b1 where
          nbr: "nextBatch composer (buf r) = Some (Inr (res, composer1, b1))" "last_batch r1 = fst res"
          by auto
        from nbr(2) lb(1) have "res = (True, snd res)" by (cases res) simp
        with nbr(1) lb(2) have "nextBatch composer (buf r) = Some (Inr ((True, snd res), composer', b1))"
          by simp
        with True show ?thesis by auto
      next
        case False
        with prepare_batch_goes_on[OF p] lb show ?thesis by simp
      qed
    qed
  qed
qed

text \<open>
  Claim C8. \<^verbatim>\<open>nextReadPair\<close> returns "not successful, done" (no more work) only when
  the buffer was exhausted and the batch it then asked for came back as (done, 0).
  Whenever it reports done at all, the dispatcher had marked the batch in hand as done:
  the batch just drawn, or \<^verbatim>\<open>last_batch_\<close> for a batch drawn earlier. The solo composer
  never returns an empty batch that is not done: what it returns is (done, 0) or has a
  count other than 0. And when a source returns (not done, 0) the draw of the solo
  composer is the draw made again on the source as that call left it.
\<close>

theorem done_only_when_exhausted:
  fixes nb :: "('s, 'p) source_nextBatch"
  shows
  "(PatternSourcePerThread_nextReadPair ndebug ops nextBatch composer r =
      Some (Inr ((False, True), composer', r')) \<longrightarrow>
      exhausted ops (buf r) \<and>
      (\<exists>b1. nextBatch composer (buf r) = Some (Inr ((True, 0), composer', b1)))) \<and>
   (PatternSourcePerThread_nextReadPair ndebug ops nextBatch composer r =
      Some (Inr ((ok, True), composer'', r'')) \<longrightarrow>
      (if exhausted ops (buf r)
       then \<exists>n b1. nextBatch composer (buf r) = Some (Inr ((True, n), composer'', b1))
       else last_batch r)) \<and>
   (SoloPatternComposer_nextBatch ndebug nb pt c = Some (Inr (res, c', pt')) \<longrightarrow>
      res = (True, 0) \<or> snd res \<noteq> 0) \<and>
   (nb s pt True True = Some (Inr ((False, 0), s1, pt1)) \<longrightarrow>
      solo_draw nb s pt = solo_draw nb s1 pt1)"
proof -
  have a: "PatternSourcePerThread_nextReadPair ndebug ops nextBatch composer r =
      Some (Inr ((False, True), composer', r')) \<longrightarrow>
      exhausted ops (buf r) \<and>
      (\<exists>b1. nextBatch composer (buf r) = Some (Inr ((True, 0), composer', b1)))"
    by (rule impI) (rule nextReadPair_no_more_work)
  have a2: "PatternSourcePerThread_nextReadPair ndebug ops nextBatch composer r =
      Some (Inr ((ok, True), composer'', r'')) \<longrightarrow>
      (if exhausted ops (buf r)
       then \<exists>n b1. nextBatch composer (buf r) = Some (Inr ((True, n), composer'', b1))
       else last_batch r)"
    by (rule impI) (rule nextReadPair_done)
  have b: "SoloPatternComposer_nextBatch ndebug nb pt c = Some (Inr (res, c', pt')) \<longrightarrow>
      res = (True, 0) \<or> snd res \<noteq> 0"
    using solo_nextBatch_result_aux[of ndebug nb pt c "Inr (res, c', pt')"] by simp
  have d: "nb s pt True True = Some (Inr ((False, 0), s1, pt1)) \<longrightarrow>
      solo_draw nb s pt = solo_draw nb s1 pt1"
  proof
    assume "nb s pt True True = Some (Inr ((False, 0), s1, pt1))"
    then show "solo_draw nb s pt = solo_draw nb s1 pt1"
      by (subst solo_draw.simps) simp
  qed
  from a a2 b d show ?thesis by (intro conjI)
qed

theorem done_only_when_exhausted_witness:
  "PatternSourcePerThread_nextReadPair True trivial_ops
      (\<lambda>c b. SoloPatternComposer_nextBatch True scripted b c) stutter_then_end
      \<lparr>buf = (), last_batch = False, last_batch_size = 0\<rparr>
    = Some (Inr ((False, True), \<lparr>solo_src = [[]], solo_cur = 1\<rparr>,
                 \<lparr>buf = (), last_batch = False, last_batch_size = 0\<rparr>)) \<and>
   exhausted trivial_ops () \<and>
   SoloPatternComposer_nextBatch True scripted () stutter_then_end
     = Some (Inr ((True, 0), \<lparr>solo_src = [[]], solo_cur = 1\<rparr>, ())) \<and>
   PatternSourcePerThread_nextReadPair True trivial_ops
      (\<lambda>c b. SoloPatternComposer_nextBatch True scripted b c) last_record
      \<lparr>buf = (), last_batch = False, last_batch_size = 0\<rparr>
    = Some (Inr ((True, True), \<lparr>solo_src = [[]], solo_cur = 0\<rparr>,
                 \<lparr>buf = (), last_batch = True, last_batch_size = 1\<rparr>)) \<and>
   SoloPatternComposer_nextBatch True scripted () last_record
     = Some (Inr ((True, 1), \<lparr>solo_src = [[]], solo_cur = 0\<rparr>, ())) \<and>
   scripted [(False, 0), (True, 0)] () True True = Some (Inr ((False, 0), [(True, 0)], ())) \<and>
   solo_draw scripted [(False, 0), (True, 0)] () = solo_draw scripted [(True, 0)] ()"
proof -
  have d: "solo_draw scripted [(False, 0), (True, 0)] () = Some (Inr ((True, 0), [], ()))"
    by (simp add: solo_draw.simps scripted_def)
  have s: "SoloPatternComposer_nextBatch True scripted () stutter_then_end
     = Some (Inr ((True, 0), \<lparr>solo_src = [[]], solo_cur = 1\<rparr>, ()))"
    by (simp add: SoloPatternComposer_nextBatch.simps d stutter_then_end_def assert_fails_def)
  have n: "PatternSourcePerThread_nextReadPair True trivial_ops
      (\<lambda>c b. SoloPatternComposer_nextBatch True scripted b c) stutter_then_end
      \<lparr>buf = (), last_batch = False, last_batch_size = 0\<rparr>
    = Some (Inr ((False, True), \<lparr>solo_src = [[]], solo_cur = 1\<rparr>,
                 \<lparr>buf = (), last_batch = False, last_batch_size = 0\<rparr>))"
    by (simp add: PatternSourcePerThread_nextReadPair_def prepare_batch_def s trivial_ops_def)
  have d1: "solo_draw scripted [(True, 1)] () = Some (Inr ((True, 1), [], ()))"
    by (simp add: solo_draw.simps scripted_def)
  have s1: "SoloPatternComposer_nextBatch True scripted () last_record
     = Some (Inr ((True, 1), \<lparr>solo_src = [[]], solo_cur = 0\<rparr>, ()))"
    by (simp add: SoloPatternComposer_nextBatch.simps d1 last_record_def)
  have n1: "PatternSourcePerThread_nextReadPair True trivial_ops
      (\<lambda>c b. SoloPatternComposer_nextBatch True scripted b c) last_record
      \<lparr>buf = (), last_batch = False, last_batch_size = 0\<rparr>
    = Some (Inr ((True, True), \<lparr>solo_src = [[]], solo_cur = 0\<rparr>,
                 \<lparr>buf = (), last_batch = True, last_batch_size = 1\<rparr>))"
    by (simp add: PatternSourcePerThread_nextReadPair_def prepare_batch_def s1 trivial_ops_def
        assert_fails_def)
  have r: "scripted [(False, 0), (True, 0)] () True True = Some (Inr ((False, 0), [(True, 0)], ()))"
    by (simp add: scripted_def)
  note t = done_only_when_exhausted[where ndebug = True and ops = trivial_ops
      and nextBatch = "\<lambda>c b. SoloPatternComposer_nextBatch True scripted b c"
      and composer = stutter_then_end
      and r = "\<lparr>buf = (), last_batch = False, last_batch_size = 0\<rparr>"
      and composer' = "\<lparr>solo_src = [[]], solo_cur = 1\<rparr>"
      and r' = "\<lparr>buf = (), last_batch = False, last_batch_size = 0\<rparr>"
      and ok = False
      and composer'' = "\<lparr>solo_src = [[]], solo_cur = 1\<rparr>"
      and r'' = "\<lparr>buf = (), last_batch = False, last_batch_size = 0\<rparr>"
      and nb = scripted and pt = "()" and c = stutter_then_end and res = "(True, 0)"
      and c' = "\<lparr>solo_src = [[]], solo_cur = 1\<rparr>" and pt' = "()"
      and s = "[(False, 0), (True, 0)]" and ?s1.0 = "[(True, 0)]" and ?pt1.0 = "()"]
  from t n r have "exhausted trivial_ops ()"
    and "solo_draw scripted [(False, 0), (True, 0)] () = solo_draw scripted [(True, 0)] ()"
    by simp_all
  with n s n1 s1 r show ?thesis by simp
qed











text \<open>
  Claim C2. The first batch drawn from \<open>one_file\<close> holds three records (27 bytes) and
  has base id 0; \<^verbatim>\<open>readCnt_\<close> is then 27, not 3, and the second batch, which holds the
  fourth record, has base id 27.
\<close>

lemma first_batch':
  "FastqPatternSource_nextBatchFromFile (small_buf\<lparr>pt_rdid := readCnt one_file\<rparr>) True one_file =
     Inr ((False, 27), batch1_src\<lparr>readCnt := 0\<rparr>, batch1_buf)"
  by (simp add: FastqPatternSource_nextBatchFromFile_def fastq_first_def small_buf_def one_file_def
      batch1_src_def batch1_buf_def
      four_records_def finish_record.simps fastq_headroom_def size_sub_def is_eol_def seq_start_def)

lemma second_batch:
  "FastqPatternSource_nextBatchFromFile (batch1_buf\<lparr>pt_rdid := readCnt batch1_src\<rparr>) True batch1_src =
   Inr ((True, 9), batch2_src\<lparr>readCnt := 27\<rparr>, batch2_buf)"
  by (simp add: FastqPatternSource_nextBatchFromFile_def fastq_first_def batch1_src_def batch1_buf_def
      batch2_src_def batch2_buf_def
      finish_record.simps fastq_headroom_def size_sub_def is_eol_def seq_start_def)

theorem fastq_counter_advances_by_bytes:
  "CFilePatternSource_nextBatch True FastqPatternSource_nextBatchFromFile (\<lambda>s. s\<lparr>first := True\<rparr>)
     good_then_missing small_buf True True one_file
     = Some (Inr ((False, 27), batch1_src, batch1_buf)) \<and>
   readCnt one_file = 0 \<and> pt_rdid batch1_buf = 0 \<and> readCnt batch1_src = 27 \<and>
   CFilePatternSource_nextBatch True FastqPatternSource_nextBatchFromFile (\<lambda>s. s\<lparr>first := True\<rparr>)
     good_then_missing batch1_buf True True batch1_src
     = Some (Inr ((True, 9), batch2_src, batch2_buf)) \<and>
   pt_rdid batch2_buf = 27 \<and> readCnt batch2_src = 36"
proof -
  have r1: "read_some FastqPatternSource_nextBatchFromFile (small_buf\<lparr>pt_rdid := readCnt one_file\<rparr>)
              True one_file =
        Some (Inr ((False, 27), batch1_src\<lparr>readCnt := 0\<rparr>, batch1_buf))"
    by (subst read_some.simps) (simp add: first_batch')
  have l1: "next_file_loop FastqPatternSource_nextBatchFromFile (\<lambda>s. s\<lparr>first := True\<rparr>)
              good_then_missing (small_buf\<lparr>pt_rdid := readCnt one_file\<rparr>) True one_file =
        Some (Inr ((False, 27), batch1_src\<lparr>readCnt := 0\<rparr>, batch1_buf))"
    by (subst next_file_loop.simps) (simp add: r1)
  have a: "CFilePatternSource_nextBatch True FastqPatternSource_nextBatchFromFile (\<lambda>s. s\<lparr>first := True\<rparr>)
     good_then_missing small_buf True True one_file
     = Some (Inr ((False, 27), batch1_src, batch1_buf))"
    by (simp add: CFilePatternSource_nextBatch_def l1 assert_fails_def) (simp add: batch1_src_def)
  have r2: "read_some FastqPatternSource_nextBatchFromFile (batch1_buf\<lparr>pt_rdid := readCnt batch1_src\<rparr>)
              True batch1_src =
        Some (Inr ((True, 9), batch2_src\<lparr>readCnt := 27\<rparr>, batch2_buf))"
    by (subst read_some.simps) (simp add: second_batch)
  have l2: "next_file_loop FastqPatternSource_nextBatchFromFile (\<lambda>s. s\<lparr>first := True\<rparr>)
              good_then_missing (batch1_buf\<lparr>pt_rdid := readCnt batch1_src\<rparr>) True batch1_src =
        Some (Inr ((True, 9), batch2_src\<lparr>readCnt := 27\<rparr>, batch2_buf))"
    by (subst next_file_loop.simps) (simp add: r2, simp add: batch2_src_def)
  have b: "CFilePatternSource_nextBatch True FastqPatternSource_nextBatchFromFile (\<lambda>s. s\<lparr>first := True\<rparr>)
     good_then_missing batch1_buf True True batch1_src
     = Some (Inr ((True, 9), batch2_src, batch2_buf))"
    by (simp add: CFilePatternSource_nextBatch_def l2 assert_fails_def) (simp add: batch2_src_def)
  have c: "readCnt one_file = 0" "pt_rdid batch1_buf = 0" "readCnt batch1_src = 27"
    "pt_rdid batch2_buf = 27" "readCnt batch2_src = 36"
    by (simp_all add: one_file_def batch1_buf_def batch1_src_def batch2_buf_def batch2_src_def)
  from a b c show ?thesis by (intro conjI)
qed

text \<open>
  Claim C7. With the list \<open>good.fq, missing.fq\<close>, \<^verbatim>\<open>open()\<close> opens the first file;
  called again when that file is finished, it leaves with "No input read files were
  valid", although one was, and so does the \<^verbatim>\<open>nextBatch\<close> that reads the first file to
  its end. With the list \<open>missing.fq, good.fq\<close> the file that cannot be opened is
  skipped with its warning.
\<close>

theorem open_exits_after_a_valid_file:
  "CFilePatternSource_open good_then_missing two_files
     = Inr (two_files\<lparr>fp := ''@r\<newline>A\<newline>+\<newline>I\<newline>'', is_open := True\<rparr>) \<and>
   CFilePatternSource_open good_then_missing
     (two_files\<lparr>fp := [], is_open := True, filecur := 1\<rparr>)
     = Inl (Exited ''Error: No input read files were valid'') \<and>
   good_open = two_files\<lparr>fp := ''@r\<newline>A\<newline>+\<newline>I\<newline>'', is_open := True, filecur := 1\<rparr> \<and>
   CFilePatternSource_nextBatch True FastqPatternSource_nextBatchFromFile (\<lambda>s. s\<lparr>first := True\<rparr>)
     good_then_missing small_buf True True good_open
     = Some (Inl (Exited ''Error: No input read files were valid'')) \<and>
   CFilePatternSource_open good_then_missing (two_files\<lparr>infiles := [''missing.fq'', ''good.fq'']\<rparr>)
     = Inr (two_files\<lparr>infiles := [''missing.fq'', ''good.fq''], filecur := 1, errs := [True, False],
                       cerr := [could_not_open ''missing.fq''],
                       fp := ''@r\<newline>A\<newline>+\<newline>I\<newline>'', is_open := True\<rparr>)"
proof -
  have g: "good_open = two_files\<lparr>fp := ''@r\<newline>A\<newline>+\<newline>I\<newline>'', is_open := True, filecur := 1\<rparr>"
    by (simp add: good_open_def two_files_def)
  have f0: "small_buf\<lparr>pt_rdid := readCnt good_open\<rparr> = small_buf"
    by (simp add: small_buf_def good_open_def)
  have a: "CFilePatternSource_open good_then_missing two_files
     = Inr (two_files\<lparr>fp := ''@r\<newline>A\<newline>+\<newline>I\<newline>'', is_open := True\<rparr>)"
    by (simp add: CFilePatternSource_open_def open_next.simps good_then_missing_def two_files_def)
  have b: "CFilePatternSource_open good_then_missing
     (two_files\<lparr>fp := [], is_open := True, filecur := 1\<rparr>)
     = Inl (Exited ''Error: No input read files were valid'')"
    by (simp add: CFilePatternSource_open_def open_next.simps good_then_missing_def two_files_def)
  have n: "FastqPatternSource_nextBatchFromFile small_buf True good_open =
      Inr ((True, 9), good_open\<lparr>fp := [], first := False\<rparr>,
           small_buf\<lparr>use_byte_buffer := True,
                     raw_bufa := ''@r\<newline>A\<newline>+\<newline>I\<newline>................................'',
                     raw_bufa_length := 9\<rparr>)"
    by (simp add: FastqPatternSource_nextBatchFromFile_def fastq_first_def small_buf_def good_open_def
        finish_record.simps fastq_headroom_def size_sub_def is_eol_def seq_start_def)
  have r: "read_some FastqPatternSource_nextBatchFromFile small_buf True good_open =
      Some (FastqPatternSource_nextBatchFromFile small_buf True good_open)"
    by (subst read_some.simps) (simp add: n)
  have o: "CFilePatternSource_open good_then_missing (good_open\<lparr>fp := [], first := False\<rparr>)
           = Inl (Exited ''Error: No input read files were valid'')"
    by (simp add: CFilePatternSource_open_def open_next.simps good_then_missing_def good_open_def)
  have fc: "filecur good_open < length (infiles good_open)"
    by (simp add: good_open_def)
  have l: "next_file_loop FastqPatternSource_nextBatchFromFile (\<lambda>s. s\<lparr>first := True\<rparr>)
             good_then_missing small_buf True good_open
           = Some (Inl (Exited ''Error: No input read files were valid''))"
    by (subst next_file_loop.simps) (simp add: r n o fc)
  have c: "CFilePatternSource_nextBatch True FastqPatternSource_nextBatchFromFile (\<lambda>s. s\<lparr>first := True\<rparr>)
     good_then_missing small_buf True True good_open
     = Some (Inl (Exited ''Error: No input read files were valid''))"
    by (simp add: CFilePatternSource_nextBatch_def f0 l)
  have d: "CFilePatternSource_open good_then_missing (two_files\<lparr>infiles := [''missing.fq'', ''good.fq'']\<rparr>)
     = Inr (two_files\<lparr>infiles := [''missing.fq'', ''good.fq''], filecur := 1, errs := [True, False],
                       cerr := [could_not_open ''missing.fq''],
                       fp := ''@r\<newline>A\<newline>+\<newline>I\<newline>'', is_open := True\<rparr>)"
    by (simp add: CFilePatternSource_open_def open_next.simps good_then_missing_def two_files_def)
  from a b g c d show ?thesis by (intro conjI)
qed

end
